theory Spec2Isabelle
  imports Main "HOL-Library.AList"
begin

section \<open>Strings and character classes\<close>

text \<open>
  The parser of \<^verbatim>\<open>src/parser.py\<close> works on Python \<^verbatim>\<open>str\<close> values. A string is modelled as a
  list of code points, one \<^typ>\<open>char\<close> per code point, for the code points below 256. The
  character classes below are the classes Python uses, cut down to that range:
  \<^verbatim>\<open>\s\<close> and \<^verbatim>\<open>str.strip()\<close> use the Unicode whitespace test, \<^verbatim>\<open>\d\<close> the decimal digits
  (only 0 to 9 below 256) and \<^verbatim>\<open>str.isdigit()\<close> the digit property (0 to 9 and the
  superscripts two, three and one).
\<close>

definition is_space :: "char \<Rightarrow> bool" where
  "is_space c = (c \<in> set [CHR 0x09, CHR 0x0A, CHR 0x0B, CHR 0x0C, CHR 0x0D,
     CHR 0x1C, CHR 0x1D, CHR 0x1E, CHR 0x1F, CHR 0x20, CHR 0x85, CHR 0xA0])"

definition is_decimal :: "char \<Rightarrow> bool" where
  "is_decimal c = (c \<in> set ''0123456789'')"

definition isdigit_char :: "char \<Rightarrow> bool" where
  "isdigit_char c = (is_decimal c \<or> c \<in> set [CHR 0xB2, CHR 0xB3, CHR 0xB9])"

text \<open>\<^verbatim>\<open>s.isdigit()\<close>: every character is a digit and there is at least one.\<close>

definition isdigit :: "string \<Rightarrow> bool" where
  "isdigit s = (s \<noteq> [] \<and> list_all isdigit_char s)"

text \<open>\<^verbatim>\<open>s.startswith(p)\<close>, returning what follows the prefix.\<close>

fun strip_prefix :: "string \<Rightarrow> string \<Rightarrow> string option" where
  "strip_prefix [] s = Some s"
| "strip_prefix (p # ps) [] = None"
| "strip_prefix (p # ps) (c # cs) = (if p = c then strip_prefix ps cs else None)"

definition startswith :: "string \<Rightarrow> string \<Rightarrow> bool" where
  "startswith s p = (strip_prefix p s \<noteq> None)"

text \<open>\<^verbatim>\<open>s.strip()\<close>: whitespace removed at both ends.\<close>

definition strip :: "string \<Rightarrow> string" where
  "strip s = rev (dropWhile is_space (rev (dropWhile is_space s)))"

text \<open>\<^verbatim>\<open>s.split('\n')\<close>: the pieces between line feeds; never the empty list.\<close>

fun split_nl :: "string \<Rightarrow> string list" where
  "split_nl [] = [[]]"
| "split_nl (c # cs) =
     (if c = CHR 0x0A then [] # split_nl cs
      else (case split_nl cs of [] \<Rightarrow> [[c]] | l # ls \<Rightarrow> (c # l) # ls))"

text \<open>
  \<^verbatim>\<open>int(s)\<close> on a non-empty string of decimal digits. The model puts no limit on the
  length of the string; a Python that limits it (4300 digits by default from version 3.11
  on) raises \<^verbatim>\<open>ValueError\<close> on a longer one.
\<close>

definition digit_val :: "char \<Rightarrow> int" where
  "digit_val c = int (of_char c) - 48"

definition py_int :: "string \<Rightarrow> int" where
  "py_int ds = foldl (\<lambda>n c. 10 * n + digit_val c) 0 ds"

text \<open>\<^verbatim>\<open>str(n)\<close> of an integer, as an f-string prints it.\<close>

fun str_nat :: "nat \<Rightarrow> string" where
  "str_nat n = (if n < 10 then [char_of (48 + n)]
                else str_nat (n div 10) @ [char_of (48 + n mod 10)])"

declare str_nat.simps [simp del]

definition str_int :: "int \<Rightarrow> string" where
  "str_int i = (if i < 0 then CHR ''-'' # str_nat (nat (- i)) else str_nat (nat i))"

section \<open>Regular expressions of the parser\<close>

text \<open>
  \<^verbatim>\<open>re.search\<close> tries the pattern at every start position from the left, the end of the
  string included, and returns the first match. The argument \<open>m\<close> matches the pattern
  at the start of a string.
\<close>

fun re_search :: "(string \<Rightarrow> 'a option) \<Rightarrow> string \<Rightarrow> 'a option" where
  "re_search m [] = m []"
| "re_search m (c # cs) = (case m (c # cs) of Some r \<Rightarrow> Some r | None \<Rightarrow> re_search m cs)"

text \<open>
  The lazy \<^verbatim>\<open>.*?\<close> (with \<^verbatim>\<open>re.DOTALL\<close>, so any character) followed by the literal \<open>e\<close>:
  the shortest run of characters after which \<open>e\<close> stands. The result is the run.
\<close>

fun lazy_until :: "string \<Rightarrow> string \<Rightarrow> string option" where
  "lazy_until e [] = (case strip_prefix e [] of Some r \<Rightarrow> Some [] | None \<Rightarrow> None)"
| "lazy_until e (c # cs) =
     (case strip_prefix e (c # cs) of
        Some r \<Rightarrow> Some []
      | None \<Rightarrow> (case lazy_until e cs of Some b \<Rightarrow> Some (c # b) | None \<Rightarrow> None))"

text \<open>
  Line 12: \<^verbatim>\<open>AUCTIONATOR_PRICE_DATABASE = ({.*?})\nAUCTIONATOR_LAST_SCAN_TIME\<close> at the start
  of a string; the result is group 1, the braces included.
\<close>

definition database_at :: "string \<Rightarrow> string option" where
  "database_at s =
     (case strip_prefix ''AUCTIONATOR_PRICE_DATABASE = {'' s of
        None \<Rightarrow> None
      | Some r \<Rightarrow>
          (case lazy_until (''}'' @ [CHR 0x0A] @ ''AUCTIONATOR_LAST_SCAN_TIME'') r of
             None \<Rightarrow> None
           | Some b \<Rightarrow> Some (''{'' @ b @ ''}'')))"

text \<open>
  Lines 27 and 38: \<^verbatim>\<open>\["([^"]+)"\] = {\<close> at the start of a string; the result is group 1.
  The greedy \<^verbatim>\<open>[^"]+\<close> takes every character up to the next double quote: a shorter run
  would have to be followed by a double quote and is followed by another character.
\<close>

definition quoted_key_open_at :: "string \<Rightarrow> string option" where
  \<open>quoted_key_open_at s =
     (case strip_prefix ''["'' s of
        None \<Rightarrow> None
      | Some r \<Rightarrow>
          (let nm = takeWhile (\<lambda>c. c \<noteq> CHR 0x22) r in
           if nm = [] then None
           else (case strip_prefix ''"] = {'' (dropWhile (\<lambda>c. c \<noteq> CHR 0x22) r) of
                   None \<Rightarrow> None
                 | Some t \<Rightarrow> Some nm)))\<close>

definition realm_match :: "string \<Rightarrow> string option" where
  "realm_match lua_data = re_search quoted_key_open_at lua_data"

text \<open>
  Line 38 uses \<^verbatim>\<open>re.match\<close>: the pattern \<^verbatim>\<open>\s*\["([^"]+)"\] = {\<close> at the start of the line
  only. The greedy \<^verbatim>\<open>\s*\<close> takes all the leading whitespace, since the next character
  has to be an opening bracket.
\<close>

definition item_name_match :: "string \<Rightarrow> string option" where
  "item_name_match line = quoted_key_open_at (dropWhile is_space line)"

text \<open>
  Lines 51 and 56: \<^verbatim>\<open>\["lastScan"\] = (\d+)\<close> and \<^verbatim>\<open>\["mr"\] = (\d+)\<close> at the start of
  a string, for the key given; the result is group 1, the longest run of digits.
\<close>

definition int_field_at :: "string \<Rightarrow> string \<Rightarrow> string option" where
  \<open>int_field_at key s =
     (case strip_prefix (''["'' @ key @ ''"] = '') s of
        None \<Rightarrow> None
      | Some r \<Rightarrow> (let ds = takeWhile is_decimal r in if ds = [] then None else Some ds))\<close>

definition scan_match :: "string \<Rightarrow> string option" where
  "scan_match line = re_search (int_field_at ''lastScan'') line"

definition mr_match :: "string \<Rightarrow> string option" where
  "mr_match line = re_search (int_field_at ''mr'') line"

text \<open>
  Line 61: \<^verbatim>\<open>\["(H\d+)"\] = (\d+)\<close> at the start of a string; the result is groups 1
  and 2. The first run of digits is the longest one, since a double quote follows it.
\<close>

definition hist_at :: "string \<Rightarrow> (string \<times> string) option" where
  \<open>hist_at s =
     (case strip_prefix ''["H'' s of
        None \<Rightarrow> None
      | Some r \<Rightarrow>
          (let ds = takeWhile is_decimal r in
           if ds = [] then None
           else (case strip_prefix ''"] = '' (dropWhile is_decimal r) of
                   None \<Rightarrow> None
                 | Some t \<Rightarrow>
                     (let vs = takeWhile is_decimal t in
                      if vs = [] then None else Some (CHR ''H'' # ds, vs)))))\<close>

definition hist_match :: "string \<Rightarrow> (string \<times> string) option" where
  "hist_match line = re_search hist_at line"

section \<open>The line loop of \<^verbatim>\<open>parse_lua_file\<close>\<close>

text \<open>
  A Python dictionary keeps its keys in the order of their first insertion; storing
  under a key it has replaces the value in place. That is \<^const>\<open>AList.update\<close> on an
  association list.
\<close>

type_synonym item_data = "(string \<times> int) list"

record scan =
  items :: "(string \<times> item_data) list"
  current_item_name :: "string option"
  current_item_data :: item_data

text \<open>The truth value of \<^verbatim>\<open>current_item_name\<close>: neither \<^verbatim>\<open>None\<close> nor empty.\<close>

definition name_open :: "string option \<Rightarrow> bool" where
  "name_open nm = (case nm of None \<Rightarrow> False | Some n \<Rightarrow> n \<noteq> [])"

text \<open>Lines 41 to 42 and 67 to 68: \<^verbatim>\<open>items[current_item_name] = current_item_data.copy()\<close>.\<close>

definition save_item :: "string option \<Rightarrow> item_data \<Rightarrow> (string \<times> item_data) list
    \<Rightarrow> (string \<times> item_data) list" where
  "save_item nm d its = (case nm of None \<Rightarrow> its | Some n \<Rightarrow> AList.update n d its)"

text \<open>Lines 38 to 39: the test that a line names an item; the result is the name.\<close>

definition entity_open :: "string \<Rightarrow> string option" where
  "entity_open line =
     (case item_name_match line of
        None \<Rightarrow> None
      | Some nm \<Rightarrow> if count_list line (CHR ''['') = 1 then Some nm else None)"

text \<open>Lines 50 to 63: the three field patterns, each applied when it matches.\<close>

definition extract_fields :: "string \<Rightarrow> item_data \<Rightarrow> item_data" where
  "extract_fields line d =
     (let d1 = (case scan_match line of
                  None \<Rightarrow> d | Some v \<Rightarrow> AList.update ''lastScan'' (py_int v) d);
          d2 = (case mr_match line of
                  None \<Rightarrow> d1 | Some v \<Rightarrow> AList.update ''mr'' (py_int v) d1)
      in (case hist_match line of
            None \<Rightarrow> d2 | Some (k, v) \<Rightarrow> AList.update k (py_int v) d2))"

text \<open>Lines 37 to 70: the body of the loop, for one line.\<close>

definition process_line :: "scan \<Rightarrow> string \<Rightarrow> scan" where
  "process_line st line =
     (case entity_open line of
        Some nm \<Rightarrow>
          \<lparr>items = (if name_open (current_item_name st) \<and> current_item_data st \<noteq> []
                    then save_item (current_item_name st) (current_item_data st) (items st)
                    else items st),
           current_item_name = Some nm,
           current_item_data = []\<rparr>
      | None \<Rightarrow>
          if name_open (current_item_name st) then
            (let d = extract_fields line (current_item_data st) in
             if strip line = ''},'' then
               \<lparr>items = (if d \<noteq> [] then save_item (current_item_name st) d (items st)
                         else items st),
                current_item_name = None,
                current_item_data = []\<rparr>
             else st\<lparr>current_item_data := d\<rparr>)
          else st)"

definition scan_init :: scan where
  "scan_init = \<lparr>items = [], current_item_name = None, current_item_data = []\<rparr>"

definition scan_lines :: "string list \<Rightarrow> scan" where
  "scan_lines ls = foldl process_line scan_init ls"

section \<open>\<^verbatim>\<open>parse_lua_file\<close>, on the content read from the file\<close>

text \<open>
  The function returns the empty dictionary when the database is not found, and the
  dictionary with the keys \<^verbatim>\<open>realm\<close> and \<^verbatim>\<open>items\<close> otherwise.
\<close>

datatype parsed = EmptyDict | Parsed "string option" "(string \<times> item_data) list"

text \<open>Line 12: the search for the database in the content; the result is group 1.\<close>

definition database_match :: "string \<Rightarrow> string option" where
  "database_match content = re_search database_at content"

definition parse_lua_file :: "string \<Rightarrow> parsed" where
  "parse_lua_file content =
     (case database_match content of
        None \<Rightarrow> EmptyDict
      | Some lua_data \<Rightarrow> Parsed (realm_match lua_data) (items (scan_lines (split_nl lua_data))))"

section \<open>The export of \<^verbatim>\<open>main\<close>\<close>

record item_entry =
  name :: string
  lastScan :: int
  mr :: int
  history :: "(string \<times> int) list"

record price_data =
  realm_out :: "string option"
  items_out :: "item_entry list"

datatype py_error = KeyError

text \<open>\<^verbatim>\<open>d.get(k, default)\<close>.\<close>

definition dict_get :: "('k \<times> 'v) list \<Rightarrow> 'k \<Rightarrow> 'v \<Rightarrow> 'v" where
  "dict_get d k dflt = (case map_of d k of None \<Rightarrow> dflt | Some v \<Rightarrow> v)"

text \<open>Line 113: \<^verbatim>\<open>key.startswith('H') and key[1:].isdigit()\<close>.\<close>

definition is_history_key :: "string \<Rightarrow> bool" where
  "is_history_key key = (startswith key ''H'' \<and> isdigit (drop 1 key))"

text \<open>Lines 104 to 114: the entry of one item.\<close>

definition make_entry :: "string \<times> item_data \<Rightarrow> item_entry" where
  "make_entry = (\<lambda>(item_name, item_data).
     \<lparr>name = item_name,
      lastScan = dict_get item_data ''lastScan'' 0,
      mr = dict_get item_data ''mr'' 0,
      history = foldl (\<lambda>h (key, v). if is_history_key key then AList.update key v h else h)
                  [] item_data\<rparr>)"

text \<open>
  Lines 92 to 116: the value written to the JSON file. On the empty dictionary line 95
  raises \<^verbatim>\<open>KeyError\<close>.
\<close>

definition main_output :: "parsed \<Rightarrow> py_error + price_data" where
  "main_output data =
     (case data of
        EmptyDict \<Rightarrow> Inl KeyError
      | Parsed r its \<Rightarrow> Inr \<lparr>realm_out = r, items_out = map make_entry its\<rparr>)"

section \<open>\<^verbatim>\<open>convert_copper_to_gold\<close>\<close>

definition gold :: "int \<Rightarrow> int" where
  "gold copper = copper div 10000"

definition silver :: "int \<Rightarrow> int" where
  "silver copper = (copper mod 10000) div 100"

definition copper_remainder :: "int \<Rightarrow> int" where
  "copper_remainder copper = copper mod 100"

definition convert_copper_to_gold :: "int \<Rightarrow> string" where
  "convert_copper_to_gold copper =
     (if gold copper > 0 then
        str_int (gold copper) @ ''g '' @ str_int (silver copper) @ ''s ''
          @ str_int (copper_remainder copper) @ ''c''
      else if silver copper > 0 then
        str_int (silver copper) @ ''s '' @ str_int (copper_remainder copper) @ ''c''
      else str_int (copper_remainder copper) @ ''c'')"

section \<open>Inputs and notions of the statements\<close>

text \<open>A text given by its lines: the lines joined by line feeds.\<close>

fun join_nl :: "string list \<Rightarrow> string" where
  "join_nl [] = []"
| "join_nl [l] = l"
| "join_nl (l # ls) = l @ CHR 0x0A # join_nl ls"

text \<open>The minimal literal of the specification's concrete scenario.\<close>

definition minimal_literal :: string where
  \<open>minimal_literal = join_nl
    [''AUCTIONATOR_PRICE_DATABASE = {'',
     '' ["Realm1"] = {'',
     ''  ["Widget"] = {'',
     ''   ["lastScan"] = 12345,'',
     ''   ["mr"] = 5000,'',
     ''   ["H5553"] = 4800,'',
     ''   ["H5554"] = 5100,'',
     ''  },'',
     '' },'',
     ''}'',
     ''AUCTIONATOR_LAST_SCAN_TIME = 99999'']\<close>

text \<open>A file content around a literal: the start marker before it, the end marker after it.\<close>

definition wrap_literal :: "string \<Rightarrow> string" where
  "wrap_literal lua =
     ''AUCTIONATOR_PRICE_DATABASE = '' @ lua @ CHR 0x0A # ''AUCTIONATOR_LAST_SCAN_TIME = 99999''"

text \<open>A field line: a line from which the extractor takes at least one field.\<close>

definition has_field :: "string \<Rightarrow> bool" where
  "has_field line = (extract_fields line [] \<noteq> [])"

text \<open>The fields collected from the lines of a block, starting from the dictionary \<open>d\<close>.\<close>

definition collect :: "item_data \<Rightarrow> string list \<Rightarrow> item_data" where
  "collect d body = foldl (\<lambda>d line. extract_fields line d) d body"

text \<open>
  An occurrence of the entity \<open>n\<close> in the lines, with a field line and closed: its opening
  line, lines that neither open an entity nor are the terminator, one of them a field
  line, then the terminator or the next opening line.
\<close>

definition closed_span :: "string list \<Rightarrow> string \<Rightarrow> bool" where
  "closed_span ls n \<longleftrightarrow>
     (\<exists>pre ol body c post. ls = pre @ ol # body @ c # post \<and> entity_open ol = Some n \<and>
        (\<forall>l\<in>set body. entity_open l = None \<and> strip l \<noteq> ''},'') \<and>
        (\<exists>l\<in>set body. has_field l) \<and>
        (strip c = ''},'' \<or> entity_open c \<noteq> None))"

text \<open>
  The lines end inside an occurrence of the entity \<open>n\<close>, with the fields \<open>d\<close> collected so
  far.
\<close>

definition open_span :: "string list \<Rightarrow> string \<Rightarrow> item_data \<Rightarrow> bool" where
  "open_span ls n d \<longleftrightarrow>
     (\<exists>pre ol body. ls = pre @ ol # body \<and> entity_open ol = Some n \<and>
        (\<forall>l\<in>set body. entity_open l = None \<and> strip l \<noteq> ''},'') \<and>
        d = collect [] body)"

text \<open>
  The invariant of the loop after the lines \<open>ls\<close>: the names committed are distinct and
  each has a closed occurrence with a field line; the entity that is open, if any, was
  opened by a line of \<open>ls\<close> and holds the fields of the lines after it.
\<close>

definition scan_inv :: "string list \<Rightarrow> scan \<Rightarrow> bool" where
  "scan_inv ls st \<longleftrightarrow>
     distinct (map fst (items st)) \<and>
     (\<forall>n\<in>fst ` set (items st). closed_span ls n) \<and>
     (case current_item_name st of
        None \<Rightarrow> current_item_data st = []
      | Some n \<Rightarrow> open_span ls n (current_item_data st))"

text \<open>Literals of the examples, by their lines.\<close>

definition two_entities :: "string list" where
  \<open>two_entities =
    [''{'',
     '' ["Realm1"] = {'',
     ''  ["Widget"] = {'',
     ''   ["mr"] = 5000,'',
     ''  },'',
     ''  ["Gadget"] = {'',
     ''  },'',
     '' },'',
     ''}'']\<close>

definition unterminated :: "string list" where
  \<open>unterminated =
    [''{'',
     '' ["Realm1"] = {'',
     ''  ["Widget"] = {'',
     ''   ["mr"] = 5,'',
     ''  }'',
     '' }'',
     ''}'']\<close>

definition only_last_scan :: "string list" where
  \<open>only_last_scan =
    [''{'',
     '' ["Realm1"] = {'',
     ''  ["Widget"] = {'',
     ''   ["lastScan"] = 1,'',
     ''  },'',
     '' },'',
     ''}'']\<close>

text \<open>
  The markers of the file: the start marker is the assignment to
  \<^verbatim>\<open>AUCTIONATOR_PRICE_DATABASE\<close> with its opening brace, the end marker is a line that
  begins with \<^verbatim>\<open>AUCTIONATOR_LAST_SCAN_TIME\<close>.
\<close>

definition start_marker :: string where
  "start_marker = ''AUCTIONATOR_PRICE_DATABASE = {''"

definition end_marker :: string where
  "end_marker = CHR 0x0A # ''AUCTIONATOR_LAST_SCAN_TIME''"

text \<open>\<^verbatim>\<open>p in s\<close>: the string \<open>p\<close> stands somewhere in \<open>s\<close>.\<close>

fun occurs :: "string \<Rightarrow> string \<Rightarrow> bool" where
  "occurs p [] = (p = [])"
| "occurs p (c # cs) = (startswith (c # cs) p \<or> occurs p cs)"

text \<open>
  The markers are in order: the start marker stands somewhere in the content and the end
  marker stands somewhere after it.
\<close>

fun markers_in_order :: "string \<Rightarrow> bool" where
  "markers_in_order [] = False"
| "markers_in_order (c # cs) =
     ((case strip_prefix start_marker (c # cs) of None \<Rightarrow> False | Some r \<Rightarrow> occurs end_marker r)
      \<or> markers_in_order cs)"

definition no_end_marker :: "string list" where
  \<open>no_end_marker =
    [''AUCTIONATOR_PRICE_DATABASE = {'',
     '' ["Realm1"] = {'',
     ''  ["Widget"] = {'',
     ''   ["mr"] = 5000,'',
     ''  },'',
     '' },'',
     ''}'']\<close>

definition markers_swapped :: "string list" where
  \<open>markers_swapped =
    [''AUCTIONATOR_LAST_SCAN_TIME = 99999'',
     ''AUCTIONATOR_LAST_SCAN_TIME = 99999'',
     ''AUCTIONATOR_PRICE_DATABASE = {'',
     '' ["Realm1"] = {'',
     '' },'',
     ''}'']\<close>

text \<open>
  The scope name as the specification words it: the first quoted key followed by an
  opening brace that stands at the outermost level of the literal, inside the braces of
  the literal and inside no others. The first argument is the number of braces that are
  open where the string starts.
\<close>

fun scope_at_depth :: "nat \<Rightarrow> string \<Rightarrow> string option" where
  "scope_at_depth d [] = None"
| "scope_at_depth d (c # cs) =
     (if d = 1 \<and> quoted_key_open_at (c # cs) \<noteq> None then quoted_key_open_at (c # cs)
      else scope_at_depth
             (if c = CHR ''{'' then d + 1 else if c = CHR ''}'' then d - 1 else d) cs)"

definition spec_scope_name :: "string \<Rightarrow> string option" where
  "spec_scope_name lua_data = scope_at_depth 0 lua_data"

definition nested_first :: "string list" where
  \<open>nested_first =
    [''{'',
     '' {'',
     ''  ["Inner"] = {'',
     ''  },'',
     '' },'',
     '' ["Realm1"] = {'',
     '' },'',
     ''}'']\<close>

definition no_key :: "string list" where
  \<open>no_key =
    [''{'',
     '' 5,'',
     ''}'']\<close>

definition letter_prefix :: "string list" where
  \<open>letter_prefix =
    [''{'',
     '' ["Realm1"] = {'',
     ''  ["Widget"] = {'',
     ''   ["lastScan"] = 12345,'',
     ''   ["L5553"] = 4800,'',
     ''  },'',
     '' },'',
     ''}'']\<close>

text \<open>
  The keys of the fields the parser knows: \<open>lastScan\<close>, \<open>mr\<close>, and the letter H followed by
  one or more digits.
\<close>

definition is_field_key :: "string \<Rightarrow> bool" where
  "is_field_key k =
     (k = ''lastScan'' \<or> k = ''mr'' \<or>
      (case k of [] \<Rightarrow> False | c # ds \<Rightarrow> c = CHR ''H'' \<and> ds \<noteq> [] \<and> list_all is_decimal ds))"

text \<open>
  A field written on a line of its own, as the saved file has it: the indentation \<open>ws\<close>,
  the bracket-quoted key, \<open>=\<close>, the digits of the value and a comma.
\<close>

definition field_line :: "string \<Rightarrow> string \<Rightarrow> string \<Rightarrow> string" where
  \<open>field_line ws k v = ws @ ''["'' @ k @ ''"] = '' @ v @ '',''\<close>

text \<open>
  Such a field is well formed when the indentation holds no opening bracket, the key is
  one the parser knows and the value is a non-empty run of digits.
\<close>

definition valid_field :: "string \<times> string \<times> string \<Rightarrow> bool" where
  "valid_field = (\<lambda>(ws, k, v).
     CHR ''['' \<notin> set ws \<and> is_field_key k \<and> v \<noteq> [] \<and> list_all is_decimal v)"

text \<open>
  The dictionary that a list of such fields denotes: each key with the integer value of
  its digits, in the order written, a later value replacing an earlier one of its key.
\<close>

definition written_fields :: "(string \<times> string \<times> string) list \<Rightarrow> item_data" where
  "written_fields fs = foldl (\<lambda>d (ws, k, v). AList.update k (py_int v) d) [] fs"

text \<open>
  The string \<open>a\<close> stands somewhere in the text and the string \<open>b\<close> stands somewhere after
  it.
\<close>

fun then_occurs :: "string \<Rightarrow> string \<Rightarrow> string \<Rightarrow> bool" where
  "then_occurs a b [] = False"
| "then_occurs a b (c # cs) =
     ((case strip_prefix a (c # cs) of None \<Rightarrow> False | Some r \<Rightarrow> occurs b r)
      \<or> then_occurs a b cs)"

text \<open>
  The literal is delimited: after some start marker, a closing brace stands immediately
  before the line feed of an end-marker line.
\<close>

definition literal_delimited :: "string \<Rightarrow> bool" where
  "literal_delimited content = then_occurs start_marker (CHR ''}'' # end_marker) content"

definition brace_then_space :: "string list" where
  \<open>brace_then_space =
    [''AUCTIONATOR_PRICE_DATABASE = {'',
     '' ["Realm1"] = {'',
     '' },'',
     ''} '',
     ''AUCTIONATOR_LAST_SCAN_TIME = 99999'']\<close>

definition five_entities :: "string list" where
  \<open>five_entities =
    [''{'',
     '' ["Realm1"] = {'',
     ''  ["Scan"] = {'',
     ''   ["lastScan"] = 1,'',
     ''  },'',
     ''  ["Hist"] = {'',
     ''   ["H1"] = 2,'',
     ''  },'',
     ''  ["Rate"] = {'',
     ''   ["mr"] = 3,'',
     ''  },'',
     ''  ["Empty"] = {'',
     ''  },'',
     '' },'',
     ''}'']\<close>

definition letter_only :: "string list" where
  \<open>letter_only =
    [''{'',
     '' ["Realm1"] = {'',
     ''  ["Widget"] = {'',
     ''   ["L5553"] = 4800,'',
     ''  },'',
     '' },'',
     ''}'']\<close>

definition reopened_full :: "string list" where
  \<open>reopened_full =
    [''{'',
     '' ["Realm1"] = {'',
     ''  ["Widget"] = {'',
     ''   ["lastScan"] = 1,'',
     ''   ["mr"] = 1,'',
     ''   ["H1"] = 2,'',
     ''   ["H2"] = 9,'',
     ''  },'',
     ''  ["Widget"] = {'',
     ''   ["lastScan"] = 7,'',
     ''   ["mr"] = 3,'',
     ''   ["H1"] = 4,'',
     ''  },'',
     '' },'',
     ''}'']\<close>

definition reopened_unclosed :: "string list" where
  \<open>reopened_unclosed =
    [''{'',
     '' ["Realm1"] = {'',
     ''  ["Widget"] = {'',
     ''   ["mr"] = 1,'',
     ''  },'',
     ''  ["Widget"] = {'',
     ''   ["mr"] = 3,'',
     ''  }'',
     '' }'',
     ''}'']\<close>

definition widget_lines :: "string list" where
  \<open>widget_lines =
    [''{'',
     '' ["Realm1"] = {'',
     ''  ["Widget"] = {'',
     ''   ["lastScan"] = 12345,'',
     ''   ["H5553"] = 4800,'',
     ''   ["H5554"] = 5100,'',
     ''   ["mr"] = 5000,'',
     ''  },'',
     '' },'',
     ''}'']\<close>

section \<open>Facts about the string functions\<close>

lemma strip_prefix_Some: "strip_prefix p s = Some r \<longleftrightarrow> s = p @ r"
  by (induction p s rule: strip_prefix.induct) auto

lemma strip_prefix_None: "strip_prefix p s = None \<longleftrightarrow> (\<forall>r. s \<noteq> p @ r)"
  using strip_prefix_Some [of p s] by (cases "strip_prefix p s") auto

lemma strip_prefix_append: "strip_prefix p (p @ r) = Some r"
  by (simp add: strip_prefix_Some)

lemma re_search_None:
  "re_search m s = None \<longleftrightarrow> (\<forall>pre suf. s = pre @ suf \<longrightarrow> m suf = None)"
proof (induction s)
  case Nil
  then show ?case by simp
next
  case (Cons c cs)
  show ?case
  proof
    assume a: "re_search m (c # cs) = None"
    then have h: "m (c # cs) = None" and t: "re_search m cs = None"
      by (auto split: option.splits)
    show "\<forall>pre suf. c # cs = pre @ suf \<longrightarrow> m suf = None"
    proof (intro allI impI)
      fix pre suf assume e: "c # cs = pre @ suf"
      show "m suf = None"
      proof (cases pre)
        case Nil
        with e h show ?thesis by simp
      next
        case (Cons a pre')
        with e have "cs = pre' @ suf" by simp
        with t Cons.IH show ?thesis by blast
      qed
    qed
  next
    assume a: "\<forall>pre suf. c # cs = pre @ suf \<longrightarrow> m suf = None"
    then have "m (c # cs) = None" by (metis append_Nil)
    moreover have "\<forall>pre suf. cs = pre @ suf \<longrightarrow> m suf = None"
      using a by (metis append_Cons)
    ultimately show "re_search m (c # cs) = None"
      using Cons.IH by simp
  qed
qed

lemma re_search_Some:
  "re_search m s = Some r \<longleftrightarrow>
     (\<exists>pre suf. s = pre @ suf \<and> m suf = Some r \<and>
        (\<forall>pre' suf'. s = pre' @ suf' \<and> length pre' < length pre \<longrightarrow> m suf' = None))"
proof (induction s)
  case Nil
  then show ?case by auto
next
  case (Cons c cs)
  show ?case
  proof (cases "m (c # cs)")
    case (Some a)
    show ?thesis
    proof
      assume "re_search m (c # cs) = Some r"
      with Some have "a = r" by simp
      with Some show "\<exists>pre suf. c # cs = pre @ suf \<and> m suf = Some r \<and>
        (\<forall>pre' suf'. c # cs = pre' @ suf' \<and> length pre' < length pre \<longrightarrow> m suf' = None)"
        by (intro exI [of _ "[]"] exI [of _ "c # cs"]) simp
    next
      assume "\<exists>pre suf. c # cs = pre @ suf \<and> m suf = Some r \<and>
        (\<forall>pre' suf'. c # cs = pre' @ suf' \<and> length pre' < length pre \<longrightarrow> m suf' = None)"
      then obtain pre suf where e: "c # cs = pre @ suf" and ms: "m suf = Some r"
        and mn: "\<forall>pre' suf'. c # cs = pre' @ suf' \<and> length pre' < length pre \<longrightarrow> m suf' = None"
        by blast
      have "pre = []"
      proof (rule ccontr)
        assume "pre \<noteq> []"
        then have "length [] < length pre" by simp
        with mn have "m (c # cs) = None" by (metis append_Nil)
        with Some show False by simp
      qed
      with e have "suf = c # cs" by simp
      with ms show "re_search m (c # cs) = Some r" by simp
    qed
  next
    case None
    then have step: "re_search m (c # cs) = re_search m cs" by simp
    show ?thesis
    proof
      assume "re_search m (c # cs) = Some r"
      with step Cons.IH obtain pre suf where e: "cs = pre @ suf" and ms: "m suf = Some r"
        and mn: "\<forall>pre' suf'. cs = pre' @ suf' \<and> length pre' < length pre \<longrightarrow> m suf' = None"
        by auto
      have "\<forall>pre' suf'. c # cs = pre' @ suf' \<and> length pre' < length (c # pre) \<longrightarrow> m suf' = None"
      proof (intro allI impI)
        fix pre' suf' assume h: "c # cs = pre' @ suf' \<and> length pre' < length (c # pre)"
        show "m suf' = None"
        proof (cases pre')
          case Nil
          with h None show ?thesis by simp
        next
          case (Cons a p)
          with h have "cs = p @ suf'" "length p < length pre" by auto
          with mn show ?thesis by blast
        qed
      qed
      with e ms show "\<exists>pre suf. c # cs = pre @ suf \<and> m suf = Some r \<and>
        (\<forall>pre' suf'. c # cs = pre' @ suf' \<and> length pre' < length pre \<longrightarrow> m suf' = None)"
        by (intro exI [of _ "c # pre"] exI [of _ suf]) simp
    next
      assume "\<exists>pre suf. c # cs = pre @ suf \<and> m suf = Some r \<and>
        (\<forall>pre' suf'. c # cs = pre' @ suf' \<and> length pre' < length pre \<longrightarrow> m suf' = None)"
      then obtain pre suf where e: "c # cs = pre @ suf" and ms: "m suf = Some r"
        and mn: "\<forall>pre' suf'. c # cs = pre' @ suf' \<and> length pre' < length pre \<longrightarrow> m suf' = None"
        by blast
      from e ms None obtain p where p: "pre = c # p" "cs = p @ suf"
        by (cases pre) auto
      have "\<forall>pre' suf'. cs = pre' @ suf' \<and> length pre' < length p \<longrightarrow> m suf' = None"
      proof (intro allI impI)
        fix pre' suf' assume h: "cs = pre' @ suf' \<and> length pre' < length p"
        then have "c # cs = (c # pre') @ suf' \<and> length (c # pre') < length pre"
          using p by simp
        with mn show "m suf' = None" by blast
      qed
      with p ms have "re_search m cs = Some r" using Cons.IH by blast
      with step show "re_search m (c # cs) = Some r" by simp
    qed
  qed
qed

lemma quoted_key_open_at_Some:
  \<open>quoted_key_open_at s = Some nm \<longleftrightarrow>
     (\<exists>post. s = ''["'' @ nm @ ''"] = {'' @ post \<and> nm \<noteq> [] \<and> CHR 0x22 \<notin> set nm)\<close>
proof
  assume a: "quoted_key_open_at s = Some nm"
  then obtain r where r: \<open>s = ''["'' @ r\<close>
    by (auto simp: quoted_key_open_at_def strip_prefix_Some split: option.splits)
  from a r have nm: "nm = takeWhile (\<lambda>c. c \<noteq> CHR 0x22) r" "nm \<noteq> []"
    by (auto simp: quoted_key_open_at_def Let_def split: option.splits if_splits)
  from a r obtain t where t: \<open>dropWhile (\<lambda>c. c \<noteq> CHR 0x22) r = ''"] = {'' @ t\<close>
    by (auto simp: quoted_key_open_at_def Let_def strip_prefix_Some split: option.splits if_splits)
  have "r = takeWhile (\<lambda>c. c \<noteq> CHR 0x22) r @ dropWhile (\<lambda>c. c \<noteq> CHR 0x22) r" by simp
  with nm t have \<open>r = nm @ ''"] = {'' @ t\<close> by simp
  moreover have "CHR 0x22 \<notin> set nm"
    using nm(1) by (auto dest: set_takeWhileD)
  ultimately show \<open>\<exists>post. s = ''["'' @ nm @ ''"] = {'' @ post \<and> nm \<noteq> [] \<and> CHR 0x22 \<notin> set nm\<close>
    using r nm(2) by auto
next
  assume \<open>\<exists>post. s = ''["'' @ nm @ ''"] = {'' @ post \<and> nm \<noteq> [] \<and> CHR 0x22 \<notin> set nm\<close>
  then obtain post where s: \<open>s = ''["'' @ nm @ ''"] = {'' @ post\<close> and nm: "nm \<noteq> []" "CHR 0x22 \<notin> set nm"
    by blast
  have tw: \<open>takeWhile (\<lambda>c. c \<noteq> CHR 0x22) (nm @ ''"] = {'' @ post) = nm\<close>
    using nm(2) by (induction nm) auto
  have dw: \<open>dropWhile (\<lambda>c. c \<noteq> CHR 0x22) (nm @ ''"] = {'' @ post) = ''"] = {'' @ post\<close>
    using nm(2) by (induction nm) auto
  show "quoted_key_open_at s = Some nm"
    unfolding quoted_key_open_at_def s using nm(1) tw dw by simp
qed

lemma re_search_skip:
  "(\<And>c t. c \<in> set ws \<Longrightarrow> m (c # t) = None) \<Longrightarrow> re_search m (ws @ s) = re_search m s"
  by (induction ws) simp_all

lemma re_search_no_start:
  assumes "m [] = None" and "\<And>c t. c \<in> set s \<Longrightarrow> m (c # t) = None"
  shows "re_search m s = None"
  using re_search_skip [of s m "[]"] assms by simp

lemma quoted_key_open_at_bracket: "c \<noteq> CHR ''['' \<Longrightarrow> quoted_key_open_at (c # t) = None"
  by (simp add: quoted_key_open_at_def)

lemma int_field_at_bracket: "c \<noteq> CHR ''['' \<Longrightarrow> int_field_at k (c # t) = None"
  by (simp add: int_field_at_def)

lemma hist_at_bracket: "c \<noteq> CHR ''['' \<Longrightarrow> hist_at (c # t) = None"
  by (simp add: hist_at_def)

lemma int_field_at_Nil: "int_field_at k [] = None"
  by (simp add: int_field_at_def)

lemma hist_at_Nil: "hist_at [] = None"
  by (simp add: hist_at_def)

lemma no_bracket_no_fields:
  assumes "CHR ''['' \<notin> set line"
  shows "scan_match line = None" and "mr_match line = None" and "hist_match line = None"
proof -
  have ne: "\<And>c. c \<in> set line \<Longrightarrow> c \<noteq> CHR ''[''" using assms by auto
  show "scan_match line = None"
    unfolding scan_match_def
    by (rule re_search_no_start) (simp_all add: int_field_at_Nil int_field_at_bracket ne)
  show "mr_match line = None"
    unfolding mr_match_def
    by (rule re_search_no_start) (simp_all add: int_field_at_Nil int_field_at_bracket ne)
  show "hist_match line = None"
    unfolding hist_match_def
    by (rule re_search_no_start) (simp_all add: hist_at_Nil hist_at_bracket ne)
qed

lemma dropWhile_keeps: "x \<in> set xs \<Longrightarrow> \<not> P x \<Longrightarrow> x \<in> set (dropWhile P xs)"
  by (induction xs) auto

lemma strip_keeps: "c \<in> set s \<Longrightarrow> \<not> is_space c \<Longrightarrow> c \<in> set (strip s)"
  unfolding strip_def by (simp add: dropWhile_keeps)

lemma bracket_not_space: "\<not> is_space (CHR ''['')"
  by (simp add: is_space_def)

lemma terminator_no_bracket:
  assumes "strip line = ''},''"
  shows "CHR ''['' \<notin> set line"
proof
  assume "CHR ''['' \<in> set line"
  then have "CHR ''['' \<in> set (strip line)"
    by (simp add: strip_keeps bracket_not_space)
  with assms show False by simp
qed

lemma extract_fields_no_bracket: "CHR ''['' \<notin> set line \<Longrightarrow> extract_fields line d = d"
  by (simp add: extract_fields_def no_bracket_no_fields)

lemma extract_fields_terminator: "strip line = ''},'' \<Longrightarrow> extract_fields line d = d"
  by (simp add: extract_fields_no_bracket terminator_no_bracket)

lemma update_not_Nil: "AList.update k v al \<noteq> []"
  by (cases al) auto

lemma extract_fields_nonempty:
  "extract_fields line d \<noteq> [] \<longleftrightarrow> d \<noteq> [] \<or> has_field line"
  unfolding has_field_def extract_fields_def
  by (auto simp: Let_def update_not_Nil split: option.splits)

lemma extract_fields_distinct:
  "distinct (map fst d) \<Longrightarrow> distinct (map fst (extract_fields line d))"
  unfolding extract_fields_def
  by (auto simp: Let_def distinct_update split: option.splits)

lemma collect_nonempty:
  "collect d body \<noteq> [] \<longleftrightarrow> d \<noteq> [] \<or> (\<exists>l\<in>set body. has_field l)"
proof (induction body arbitrary: d)
  case Nil
  then show ?case by (simp add: collect_def)
next
  case (Cons a body)
  have "collect d (a # body) = collect (extract_fields a d) body"
    by (simp add: collect_def)
  then show ?case
    using Cons.IH [of "extract_fields a d"] extract_fields_nonempty [of a d] by auto
qed

lemma collect_distinct:
  "distinct (map fst d) \<Longrightarrow> distinct (map fst (collect d body))"
  unfolding collect_def
  by (induction body arbitrary: d) (auto simp: extract_fields_distinct)

lemma item_name_match_Some:
  \<open>item_name_match line = Some nm \<longleftrightarrow>
     (\<exists>ws post. line = ws @ ''["'' @ nm @ ''"] = {'' @ post \<and> (\<forall>c\<in>set ws. is_space c)
        \<and> nm \<noteq> [] \<and> CHR 0x22 \<notin> set nm)\<close>
proof
  assume "item_name_match line = Some nm"
  then obtain post where p: \<open>dropWhile is_space line = ''["'' @ nm @ ''"] = {'' @ post\<close>
    and nm: "nm \<noteq> []" "CHR 0x22 \<notin> set nm"
    unfolding item_name_match_def quoted_key_open_at_Some by blast
  have "line = takeWhile is_space line @ dropWhile is_space line" by simp
  with p have \<open>line = takeWhile is_space line @ ''["'' @ nm @ ''"] = {'' @ post\<close> by simp
  moreover have "\<forall>c\<in>set (takeWhile is_space line). is_space c"
    by (auto dest: set_takeWhileD)
  ultimately show \<open>\<exists>ws post. line = ws @ ''["'' @ nm @ ''"] = {'' @ post \<and> (\<forall>c\<in>set ws. is_space c)
        \<and> nm \<noteq> [] \<and> CHR 0x22 \<notin> set nm\<close>
    using nm by blast
next
  assume \<open>\<exists>ws post. line = ws @ ''["'' @ nm @ ''"] = {'' @ post \<and> (\<forall>c\<in>set ws. is_space c)
        \<and> nm \<noteq> [] \<and> CHR 0x22 \<notin> set nm\<close>
  then obtain ws post where l: \<open>line = ws @ ''["'' @ nm @ ''"] = {'' @ post\<close>
    and ws: "\<forall>c\<in>set ws. is_space c" and nm: "nm \<noteq> []" "CHR 0x22 \<notin> set nm"
    by blast
  have \<open>dropWhile is_space line = ''["'' @ nm @ ''"] = {'' @ post\<close>
    unfolding l using ws by (induction ws) (simp_all add: bracket_not_space)
  then show "item_name_match line = Some nm"
    unfolding item_name_match_def quoted_key_open_at_Some using nm by blast
qed

lemma entity_open_Some:
  "entity_open line = Some nm \<longleftrightarrow>
     item_name_match line = Some nm \<and> count_list line (CHR ''['') = 1"
  unfolding entity_open_def by (auto split: option.splits)

lemma entity_open_name: "entity_open line = Some nm \<Longrightarrow> nm \<noteq> []"
  unfolding entity_open_Some item_name_match_Some by blast

lemma entity_open_bracket: "entity_open line = Some nm \<Longrightarrow> CHR ''['' \<in> set line"
  unfolding entity_open_Some item_name_match_Some by auto

lemma terminator_not_open: "strip line = ''},'' \<Longrightarrow> entity_open line = None"
  using entity_open_bracket terminator_no_bracket by (cases "entity_open line") auto

section \<open>Facts about the line loop\<close>

lemma process_line_open:
  "entity_open line = Some nm \<Longrightarrow>
     process_line st line =
       \<lparr>items = (if name_open (current_item_name st) \<and> current_item_data st \<noteq> []
                 then save_item (current_item_name st) (current_item_data st) (items st)
                 else items st),
        current_item_name = Some nm, current_item_data = []\<rparr>"
  by (simp add: process_line_def)

lemma process_line_plain:
  "entity_open line = None \<Longrightarrow> strip line \<noteq> ''},'' \<Longrightarrow> name_open (current_item_name st) \<Longrightarrow>
     process_line st line = st\<lparr>current_item_data := extract_fields line (current_item_data st)\<rparr>"
  by (simp add: process_line_def Let_def)

lemma process_line_terminator:
  "strip line = ''},'' \<Longrightarrow> name_open (current_item_name st) \<Longrightarrow>
     process_line st line =
       \<lparr>items = (if current_item_data st \<noteq> []
                 then save_item (current_item_name st) (current_item_data st) (items st)
                 else items st),
        current_item_name = None, current_item_data = []\<rparr>"
  by (simp add: process_line_def Let_def terminator_not_open extract_fields_terminator)

lemma process_line_closed:
  "entity_open line = None \<Longrightarrow> \<not> name_open (current_item_name st) \<Longrightarrow>
     process_line st line = st"
  by (simp add: process_line_def)

lemma scan_lines_snoc: "scan_lines (ls @ [l]) = process_line (scan_lines ls) l"
  by (simp add: scan_lines_def)

lemma scan_lines_append: "scan_lines (xs @ ys) = foldl process_line (scan_lines xs) ys"
  by (simp add: scan_lines_def)

lemma scan_body:
  assumes "n \<noteq> []"
    and "\<forall>l\<in>set body. entity_open l = None \<and> strip l \<noteq> ''},''"
  shows "foldl process_line \<lparr>items = its, current_item_name = Some n, current_item_data = d\<rparr> body
           = \<lparr>items = its, current_item_name = Some n, current_item_data = collect d body\<rparr>"
  using assms(2)
proof (induction body arbitrary: d)
  case Nil
  then show ?case by (simp add: collect_def)
next
  case (Cons l body)
  have "process_line \<lparr>items = its, current_item_name = Some n, current_item_data = d\<rparr> l
          = \<lparr>items = its, current_item_name = Some n, current_item_data = extract_fields l d\<rparr>"
    using Cons.prems assms(1) by (simp add: process_line_plain name_open_def)
  moreover have "collect d (l # body) = collect (extract_fields l d) body"
    by (simp add: collect_def)
  ultimately show ?case using Cons by simp
qed

lemma closed_span_mono: "closed_span ls n \<Longrightarrow> closed_span (ls @ ls') n"
proof -
  assume "closed_span ls n"
  then obtain pre ol body c post where h: "ls = pre @ ol # body @ c # post"
    "entity_open ol = Some n" "\<forall>l\<in>set body. entity_open l = None \<and> strip l \<noteq> ''},''"
    "\<exists>l\<in>set body. has_field l" "strip c = ''},'' \<or> entity_open c \<noteq> None"
    unfolding closed_span_def by blast
  from h(1) have "ls @ ls' = pre @ ol # body @ c # (post @ ls')" by simp
  with h(2-5) show ?thesis unfolding closed_span_def by blast
qed

lemma open_span_close:
  assumes "open_span ls n d" and "d \<noteq> []" and "strip c = ''},'' \<or> entity_open c \<noteq> None"
  shows "closed_span (ls @ [c]) n"
proof -
  from assms(1) obtain pre ol body where h: "ls = pre @ ol # body" "entity_open ol = Some n"
    "\<forall>l\<in>set body. entity_open l = None \<and> strip l \<noteq> ''},''" "d = collect [] body"
    unfolding open_span_def by blast
  from h(4) assms(2) have f: "\<exists>l\<in>set body. has_field l"
    by (simp add: collect_nonempty)
  from h(1) have "ls @ [c] = pre @ ol # body @ c # []" by simp
  with h(2,3) f assms(3) show ?thesis unfolding closed_span_def by blast
qed

lemma open_span_name: "open_span ls n d \<Longrightarrow> n \<noteq> []"
  unfolding open_span_def using entity_open_name by blast

lemma open_span_extend:
  assumes "open_span ls n d" and "entity_open l = None" and "strip l \<noteq> ''},''"
  shows "open_span (ls @ [l]) n (extract_fields l d)"
proof -
  from assms(1) obtain pre ol body where h: "ls = pre @ ol # body" "entity_open ol = Some n"
    "\<forall>l\<in>set body. entity_open l = None \<and> strip l \<noteq> ''},''" "d = collect [] body"
    unfolding open_span_def by blast
  from h(1) have "ls @ [l] = pre @ ol # (body @ [l])" by simp
  moreover from h(3) assms(2,3)
  have "\<forall>x\<in>set (body @ [l]). entity_open x = None \<and> strip x \<noteq> ''},''" by simp
  moreover from h(4) have "extract_fields l d = collect [] (body @ [l])"
    by (simp add: collect_def)
  ultimately show ?thesis using h(2) unfolding open_span_def by blast
qed

lemma open_span_start: "entity_open l = Some n \<Longrightarrow> open_span (ls @ [l]) n []"
  unfolding open_span_def
  by (rule exI [of _ ls], rule exI [of _ l], rule exI [of _ "[]"]) (simp add: collect_def)

lemma keys_save_item:
  "fst ` set (save_item (Some n) d its) = insert n (fst ` set its)"
  by (simp add: save_item_def dom_update)

lemma distinct_save_item:
  "distinct (map fst its) \<Longrightarrow> distinct (map fst (save_item nm d its))"
  by (simp add: save_item_def distinct_update split: option.splits)

lemma scan_inv_step:
  assumes "scan_inv ls st"
  shows "scan_inv (ls @ [l]) (process_line st l)"
proof -
  from assms have dist: "distinct (map fst (items st))"
    and keys: "\<forall>n\<in>fst ` set (items st). closed_span (ls @ [l]) n"
    by (auto simp: scan_inv_def closed_span_mono)
  show ?thesis
  proof (cases "current_item_name st")
    case None
    with assms have d: "current_item_data st = []" by (simp add: scan_inv_def)
    show ?thesis
    proof (cases "entity_open l")
      case no: None
      with None have "process_line st l = st"
        by (simp add: process_line_closed name_open_def)
      with dist keys None d show ?thesis by (simp add: scan_inv_def)
    next
      case (Some n')
      with None have "process_line st l =
          \<lparr>items = items st, current_item_name = Some n', current_item_data = []\<rparr>"
        by (simp add: process_line_open name_open_def)
      with dist keys open_span_start [OF Some] show ?thesis by (simp add: scan_inv_def)
    qed
  next
    case (Some n)
    with assms have os: "open_span ls n (current_item_data st)" by (simp add: scan_inv_def)
    then have n: "n \<noteq> []" by (rule open_span_name)
    with Some have no: "name_open (current_item_name st)" by (simp add: name_open_def)
    have saved: "current_item_data st \<noteq> [] \<Longrightarrow> strip l = ''},'' \<or> entity_open l \<noteq> None \<Longrightarrow>
      \<forall>k\<in>fst ` set (save_item (Some n) (current_item_data st) (items st)). closed_span (ls @ [l]) k"
      using keys open_span_close [OF os] by (simp add: keys_save_item)
    show ?thesis
    proof (cases "entity_open l")
      case (Some n')
      then have "process_line st l =
          \<lparr>items = (if current_item_data st \<noteq> []
                    then save_item (current_item_name st) (current_item_data st) (items st)
                    else items st),
           current_item_name = Some n', current_item_data = []\<rparr>"
        using no by (simp add: process_line_open)
      with dist keys saved \<open>current_item_name st = Some n\<close> Some open_span_start [OF Some]
      show ?thesis by (simp add: scan_inv_def distinct_save_item)
    next
      case None
      show ?thesis
      proof (cases "strip l = ''},''")
        case True
        then have "process_line st l =
          \<lparr>items = (if current_item_data st \<noteq> []
                    then save_item (current_item_name st) (current_item_data st) (items st)
                    else items st),
           current_item_name = None, current_item_data = []\<rparr>"
          using no by (simp add: process_line_terminator)
        with dist keys saved \<open>current_item_name st = Some n\<close> True
        show ?thesis by (simp add: scan_inv_def distinct_save_item)
      next
        case False
        with None no have "process_line st l =
            st\<lparr>current_item_data := extract_fields l (current_item_data st)\<rparr>"
          by (simp add: process_line_plain)
        with dist keys \<open>current_item_name st = Some n\<close> open_span_extend [OF os None False]
        show ?thesis by (simp add: scan_inv_def)
      qed
    qed
  qed
qed

lemma scan_inv_scan_lines: "scan_inv ls (scan_lines ls)"
proof (induction ls rule: rev_induct)
  case Nil
  show ?case by (simp add: scan_inv_def scan_lines_def scan_init_def)
next
  case (snoc l ls)
  then show ?case by (simp add: scan_lines_snoc scan_inv_step)
qed

section \<open>Facts about entity spans\<close>

lemma parse_lua_file_Parsed:
  "database_match content = Some lua_data \<Longrightarrow>
     parse_lua_file content = Parsed (realm_match lua_data) (items (scan_lines (split_nl lua_data)))"
  by (simp add: parse_lua_file_def)

lemma scan_span:
  assumes "entity_open ol = Some n"
    and "\<forall>l\<in>set body. entity_open l = None \<and> strip l \<noteq> ''},''"
  shows "scan_lines (pre @ ol # body) =
           \<lparr>items = items (scan_lines (pre @ [ol])), current_item_name = Some n,
            current_item_data = collect [] body\<rparr>"
proof -
  have "scan_lines (pre @ [ol]) =
      \<lparr>items = items (scan_lines (pre @ [ol])), current_item_name = Some n,
       current_item_data = []\<rparr>"
    using assms(1) by (simp add: scan_lines_snoc process_line_open)
  moreover have "scan_lines (pre @ ol # body) = foldl process_line (scan_lines (pre @ [ol])) body"
    using scan_lines_append [of "pre @ [ol]" body] by simp
  ultimately have "scan_lines (pre @ ol # body) =
      foldl process_line \<lparr>items = items (scan_lines (pre @ [ol])), current_item_name = Some n,
       current_item_data = []\<rparr> body"
    by simp
  then show ?thesis
    using scan_body [OF entity_open_name [OF assms(1)] assms(2)] by simp
qed

lemma scan_span_closed:
  assumes "entity_open ol = Some n"
    and "\<forall>l\<in>set body. entity_open l = None \<and> strip l \<noteq> ''},''"
    and "\<exists>l\<in>set body. has_field l"
    and "strip c = ''},'' \<or> entity_open c \<noteq> None"
  shows "scan_lines (pre @ ol # body @ [c]) =
           \<lparr>items = AList.update n (collect [] body) (items (scan_lines (pre @ [ol]))),
            current_item_name = entity_open c, current_item_data = []\<rparr>"
proof -
  let ?st = "\<lparr>items = items (scan_lines (pre @ [ol])), current_item_name = Some n,
            current_item_data = collect [] body\<rparr>"
  have "scan_lines (pre @ ol # body @ [c]) = process_line (scan_lines (pre @ ol # body)) c"
    using scan_lines_snoc [of "pre @ ol # body" c] by simp
  then have step: "scan_lines (pre @ ol # body @ [c]) = process_line ?st c"
    using scan_span [OF assms(1,2)] by simp
  have no: "name_open (current_item_name ?st)"
    using entity_open_name [OF assms(1)] by (simp add: name_open_def)
  have ne: "collect [] body \<noteq> []"
    using assms(3) by (simp add: collect_nonempty)
  show ?thesis
  proof (cases "entity_open c")
    case None
    with assms(4) have "strip c = ''},''" by simp
    from process_line_terminator [OF this no] ne None step show ?thesis
      by (simp add: save_item_def)
  next
    case (Some n')
    from process_line_open [OF Some, of ?st] no ne Some step show ?thesis
      by (simp add: save_item_def)
  qed
qed

lemma keys_mono_step: "fst ` set (items st) \<subseteq> fst ` set (items (process_line st l))"
proof (cases "current_item_name st")
  case None
  then show ?thesis
    by (cases "entity_open l") (simp_all add: process_line_open process_line_closed name_open_def)
next
  case (Some n)
  then have k: "fst ` set (items st) \<subseteq>
      fst ` set (save_item (current_item_name st) (current_item_data st) (items st))"
    by (auto simp: keys_save_item)
  show ?thesis
  proof (cases "entity_open l")
    case o: (Some n')
    with k show ?thesis by (simp add: process_line_open)
  next
    case None
    show ?thesis
    proof (cases "name_open (current_item_name st)")
      case False
      with None show ?thesis by (simp add: process_line_closed)
    next
      case True
      with None k show ?thesis
        by (cases "strip l = ''},''") (simp_all add: process_line_terminator process_line_plain)
    qed
  qed
qed

lemma keys_mono: "fst ` set (items st) \<subseteq> fst ` set (items (foldl process_line st ls))"
proof (induction ls arbitrary: st)
  case Nil
  show ?case by simp
next
  case (Cons l ls)
  from keys_mono_step [of st l] Cons [of "process_line st l"] show ?case by auto
qed

lemma other_name_step:
  assumes "current_item_name st \<noteq> Some n" and "entity_open l \<noteq> Some n"
  shows "current_item_name (process_line st l) \<noteq> Some n \<and>
         map_of (items (process_line st l)) n = map_of (items st) n"
proof -
  have k: "map_of (save_item (current_item_name st) d (items st)) n = map_of (items st) n" for d
    using assms(1) by (cases "current_item_name st") (auto simp: save_item_def update_conv')
  show ?thesis
  proof (cases "entity_open l")
    case (Some n')
    with assms(2) k show ?thesis by (simp add: process_line_open)
  next
    case None
    show ?thesis
    proof (cases "name_open (current_item_name st)")
      case False
      with None assms(1) show ?thesis by (simp add: process_line_closed)
    next
      case True
      with None assms(1) k show ?thesis
        by (cases "strip l = ''},''") (simp_all add: process_line_terminator process_line_plain)
    qed
  qed
qed

lemma other_name_fold:
  assumes "current_item_name st \<noteq> Some n" and "\<forall>l\<in>set ls. entity_open l \<noteq> Some n"
  shows "map_of (items (foldl process_line st ls)) n = map_of (items st) n"
  using assms
proof (induction ls arbitrary: st)
  case Nil
  show ?case by simp
next
  case (Cons l ls)
  from Cons.prems have "current_item_name (process_line st l) \<noteq> Some n"
    and "map_of (items (process_line st l)) n = map_of (items st) n"
    using other_name_step [of st n l] by simp_all
  with Cons show ?case by simp
qed

lemma distinct_one_record:
  "distinct (map fst xs) \<Longrightarrow> map_of xs k = Some v \<Longrightarrow> filter (\<lambda>e. fst e = k) xs = [(k, v)]"
proof (induction xs)
  case Nil
  then show ?case by simp
next
  case (Cons x xs)
  show ?case
  proof (cases "fst x = k")
    case True
    with Cons.prems have "x = (k, v)" by (cases x) simp
    moreover from True Cons.prems have "k \<notin> fst ` set xs" by simp
    then have "filter (\<lambda>e. fst e = k) xs = []"
      by (force simp: filter_empty_conv)
    ultimately show ?thesis by simp
  next
    case False
    with Cons show ?thesis by (cases x) auto
  qed
qed

lemma closed_span_opened_before:
  assumes "closed_span (pre @ [l]) n"
  shows "\<exists>x\<in>set pre. entity_open x = Some n"
proof -
  from assms obtain p ol body c post where h: "pre @ [l] = p @ ol # body @ c # post"
    and o: "entity_open ol = Some n"
    unfolding closed_span_def by blast
  obtain r x where rx: "body @ c # post = r @ [x]"
    by (cases "body @ c # post" rule: rev_cases) simp_all
  with h have "pre @ [l] = (p @ ol # r) @ [x]" by simp
  then have "pre = p @ ol # r" by (simp only: append1_eq_conv)
  with o show ?thesis by auto
qed

lemma scan_items_distinct: "distinct (map fst (items (scan_lines ls)))"
  using scan_inv_scan_lines [of ls] by (simp add: scan_inv_def)

lemma scan_keys_closed_span: "n \<in> fst ` set (items (scan_lines ls)) \<Longrightarrow> closed_span ls n"
  using scan_inv_scan_lines [of ls] by (auto simp: scan_inv_def)

section \<open>Facts about the markers\<close>

lemma occurs_iff: "occurs p s \<longleftrightarrow> (\<exists>a b. s = a @ p @ b)"
proof (induction s)
  case Nil
  show ?case by auto
next
  case (Cons c cs)
  show ?case
  proof
    assume "occurs p (c # cs)"
    then consider "startswith (c # cs) p" | "occurs p cs" by auto
    then show "\<exists>a b. c # cs = a @ p @ b"
    proof cases
      case 1
      then obtain r where "c # cs = p @ r"
        by (auto simp: startswith_def strip_prefix_Some)
      then have "c # cs = [] @ p @ r" by simp
      then show ?thesis by blast
    next
      case 2
      with Cons.IH obtain a b where "cs = a @ p @ b" by blast
      then have "c # cs = (c # a) @ p @ b" by simp
      then show ?thesis by blast
    qed
  next
    assume "\<exists>a b. c # cs = a @ p @ b"
    then obtain a b where e: "c # cs = a @ p @ b" by blast
    show "occurs p (c # cs)"
    proof (cases a)
      case Nil
      with e have "strip_prefix p (c # cs) = Some b" by (simp add: strip_prefix_Some)
      then show ?thesis by (simp add: startswith_def)
    next
      case (Cons x a')
      with e have "cs = a' @ p @ b" by simp
      with Cons.IH have "occurs p cs" by blast
      then show ?thesis by simp
    qed
  qed
qed

lemma markers_in_order_iff:
  "markers_in_order s \<longleftrightarrow> (\<exists>pre mid post. s = pre @ start_marker @ mid @ end_marker @ post)"
proof (induction s)
  case Nil
  show ?case by (simp add: start_marker_def)
next
  case (Cons c cs)
  show ?case
  proof
    assume "markers_in_order (c # cs)"
    then consider r where "strip_prefix start_marker (c # cs) = Some r" "occurs end_marker r"
      | "markers_in_order cs"
      by (auto split: option.splits)
    then show "\<exists>pre mid post. c # cs = pre @ start_marker @ mid @ end_marker @ post"
    proof cases
      case 1
      from 1(2) obtain a b where "r = a @ end_marker @ b" unfolding occurs_iff by blast
      with 1(1) have "c # cs = [] @ start_marker @ a @ end_marker @ b"
        by (simp add: strip_prefix_Some)
      then show ?thesis by blast
    next
      case 2
      with Cons.IH obtain pre mid post where "cs = pre @ start_marker @ mid @ end_marker @ post"
        by blast
      then have "c # cs = (c # pre) @ start_marker @ mid @ end_marker @ post" by simp
      then show ?thesis by blast
    qed
  next
    assume "\<exists>pre mid post. c # cs = pre @ start_marker @ mid @ end_marker @ post"
    then obtain pre mid post where e: "c # cs = pre @ start_marker @ mid @ end_marker @ post"
      by blast
    show "markers_in_order (c # cs)"
    proof (cases pre)
      case Nil
      with e have "strip_prefix start_marker (c # cs) = Some (mid @ end_marker @ post)"
        by (simp add: strip_prefix_Some)
      moreover have "occurs end_marker (mid @ end_marker @ post)"
        unfolding occurs_iff by blast
      ultimately show ?thesis by simp
    next
      case (Cons x pre')
      with e have "cs = pre' @ start_marker @ mid @ end_marker @ post" by simp
      with Cons.IH have "markers_in_order cs" by blast
      then show ?thesis by simp
    qed
  qed
qed

lemma markers_in_order_occur:
  "markers_in_order s \<Longrightarrow> occurs start_marker s \<and> occurs end_marker s"
proof -
  assume "markers_in_order s"
  then obtain pre mid post where e: "s = pre @ start_marker @ mid @ end_marker @ post"
    unfolding markers_in_order_iff by blast
  then have "s = pre @ start_marker @ (mid @ end_marker @ post)"
    and "s = (pre @ start_marker @ mid) @ end_marker @ post" by simp_all
  then show ?thesis unfolding occurs_iff by blast
qed

lemma lazy_until_Some: "lazy_until e r = Some b \<Longrightarrow> \<exists>rest. r = b @ e @ rest"
proof (induction r arbitrary: b)
  case Nil
  then show ?case by (auto simp: strip_prefix_Some split: option.splits)
next
  case (Cons c cs)
  show ?case
  proof (cases "strip_prefix e (c # cs)")
    case (Some t)
    with Cons.prems have "b = []" by simp
    with Some show ?thesis by (simp add: strip_prefix_Some)
  next
    case None
    with Cons.prems obtain b' where b': "lazy_until e cs = Some b'" "b = c # b'"
      by (auto split: option.splits)
    from Cons.IH [OF b'(1)] obtain rest where "cs = b' @ e @ rest" by blast
    with b'(2) show ?thesis by simp
  qed
qed

lemma database_match_markers:
  assumes "database_match content = Some lua_data"
  shows "markers_in_order content"
proof -
  from assms obtain pre suf where c: "content = pre @ suf" and d: "database_at suf = Some lua_data"
    unfolding database_match_def re_search_Some by blast
  from d obtain r b where r: "suf = ''AUCTIONATOR_PRICE_DATABASE = {'' @ r"
    and b: "lazy_until (''}'' @ [CHR 0x0A] @ ''AUCTIONATOR_LAST_SCAN_TIME'') r = Some b"
    unfolding database_at_def by (auto simp: strip_prefix_Some split: option.splits)
  from lazy_until_Some [OF b] obtain rest
    where "r = b @ (''}'' @ [CHR 0x0A] @ ''AUCTIONATOR_LAST_SCAN_TIME'') @ rest" by blast
  then have "r = (b @ ''}'') @ end_marker @ rest" by (simp add: end_marker_def)
  with c r have "content = pre @ start_marker @ (b @ ''}'') @ end_marker @ rest"
    by (simp add: start_marker_def)
  then show ?thesis unfolding markers_in_order_iff by blast
qed

section \<open>Facts about the realm pattern\<close>

lemma realm_match_Some:
  \<open>realm_match s = Some nm \<longleftrightarrow>
     (\<exists>pre post. s = pre @ ''["'' @ nm @ ''"] = {'' @ post \<and> nm \<noteq> [] \<and> CHR 0x22 \<notin> set nm \<and>
        (\<forall>pre' nm' post'. s = pre' @ ''["'' @ nm' @ ''"] = {'' @ post' \<and> nm' \<noteq> [] \<and>
            CHR 0x22 \<notin> set nm' \<longrightarrow> length pre \<le> length pre'))\<close>
proof
  assume "realm_match s = Some nm"
  then obtain pre suf where s: "s = pre @ suf" and m: "quoted_key_open_at suf = Some nm"
    and first: "\<forall>pre' suf'. s = pre' @ suf' \<and> length pre' < length pre
                  \<longrightarrow> quoted_key_open_at suf' = None"
    unfolding realm_match_def re_search_Some by blast
  from m obtain post where suf: \<open>suf = ''["'' @ nm @ ''"] = {'' @ post\<close>
    and nm: "nm \<noteq> []" "CHR 0x22 \<notin> set nm"
    unfolding quoted_key_open_at_Some by blast
  have \<open>length pre \<le> length pre'\<close>
    if h: \<open>s = pre' @ ''["'' @ nm' @ ''"] = {'' @ post' \<and> nm' \<noteq> [] \<and> CHR 0x22 \<notin> set nm'\<close>
    for pre' nm' post'
  proof (rule ccontr)
    assume "\<not> length pre \<le> length pre'"
    then have "length pre' < length pre" by simp
    with first h have \<open>quoted_key_open_at (''["'' @ nm' @ ''"] = {'' @ post') = None\<close>
      by blast
    moreover from h have \<open>quoted_key_open_at (''["'' @ nm' @ ''"] = {'' @ post') = Some nm'\<close>
      unfolding quoted_key_open_at_Some by blast
    ultimately show False by simp
  qed
  with s suf nm show \<open>\<exists>pre post. s = pre @ ''["'' @ nm @ ''"] = {'' @ post \<and> nm \<noteq> [] \<and>
        CHR 0x22 \<notin> set nm \<and>
        (\<forall>pre' nm' post'. s = pre' @ ''["'' @ nm' @ ''"] = {'' @ post' \<and> nm' \<noteq> [] \<and>
            CHR 0x22 \<notin> set nm' \<longrightarrow> length pre \<le> length pre')\<close>
    by blast
next
  assume \<open>\<exists>pre post. s = pre @ ''["'' @ nm @ ''"] = {'' @ post \<and> nm \<noteq> [] \<and>
        CHR 0x22 \<notin> set nm \<and>
        (\<forall>pre' nm' post'. s = pre' @ ''["'' @ nm' @ ''"] = {'' @ post' \<and> nm' \<noteq> [] \<and>
            CHR 0x22 \<notin> set nm' \<longrightarrow> length pre \<le> length pre')\<close>
  then obtain pre post where s: \<open>s = pre @ ''["'' @ nm @ ''"] = {'' @ post\<close>
    and nm: "nm \<noteq> []" "CHR 0x22 \<notin> set nm"
    and first: \<open>\<forall>pre' nm' post'. s = pre' @ ''["'' @ nm' @ ''"] = {'' @ post' \<and> nm' \<noteq> [] \<and>
            CHR 0x22 \<notin> set nm' \<longrightarrow> length pre \<le> length pre'\<close>
    by blast
  have m: \<open>quoted_key_open_at (''["'' @ nm @ ''"] = {'' @ post) = Some nm\<close>
    unfolding quoted_key_open_at_Some using nm by blast
  have \<open>quoted_key_open_at suf' = None\<close>
    if h: "s = pre' @ suf' \<and> length pre' < length pre" for pre' suf'
  proof (cases "quoted_key_open_at suf'")
    case None
    then show ?thesis .
  next
    case (Some nm')
    then obtain post' where \<open>suf' = ''["'' @ nm' @ ''"] = {'' @ post'\<close>
      "nm' \<noteq> []" "CHR 0x22 \<notin> set nm'"
      unfolding quoted_key_open_at_Some by blast
    with h first have "length pre \<le> length pre'" by blast
    with h show ?thesis by simp
  qed
  with s m show "realm_match s = Some nm"
    unfolding realm_match_def re_search_Some by blast
qed

lemma realm_match_None:
  \<open>realm_match s = None \<longleftrightarrow>
     \<not> (\<exists>pre nm post. s = pre @ ''["'' @ nm @ ''"] = {'' @ post \<and> nm \<noteq> [] \<and>
           CHR 0x22 \<notin> set nm)\<close>
proof
  assume n: "realm_match s = None"
  show \<open>\<not> (\<exists>pre nm post. s = pre @ ''["'' @ nm @ ''"] = {'' @ post \<and> nm \<noteq> [] \<and>
           CHR 0x22 \<notin> set nm)\<close>
  proof
    assume \<open>\<exists>pre nm post. s = pre @ ''["'' @ nm @ ''"] = {'' @ post \<and> nm \<noteq> [] \<and>
           CHR 0x22 \<notin> set nm\<close>
    then obtain pre nm post where s: \<open>s = pre @ ''["'' @ nm @ ''"] = {'' @ post\<close>
      and nm: "nm \<noteq> []" "CHR 0x22 \<notin> set nm" by blast
    from n s have \<open>quoted_key_open_at (''["'' @ nm @ ''"] = {'' @ post) = None\<close>
      unfolding realm_match_def re_search_None by blast
    moreover from nm have \<open>quoted_key_open_at (''["'' @ nm @ ''"] = {'' @ post) = Some nm\<close>
      unfolding quoted_key_open_at_Some by blast
    ultimately show False by simp
  qed
next
  assume a: \<open>\<not> (\<exists>pre nm post. s = pre @ ''["'' @ nm @ ''"] = {'' @ post \<and> nm \<noteq> [] \<and>
           CHR 0x22 \<notin> set nm)\<close>
  have "quoted_key_open_at suf = None" if "s = pre @ suf" for pre suf
  proof (cases "quoted_key_open_at suf")
    case None
    then show ?thesis .
  next
    case (Some nm)
    then obtain post where \<open>suf = ''["'' @ nm @ ''"] = {'' @ post\<close> "nm \<noteq> []" "CHR 0x22 \<notin> set nm"
      unfolding quoted_key_open_at_Some by blast
    with that a show ?thesis by blast
  qed
  then show "realm_match s = None"
    unfolding realm_match_def re_search_None by blast
qed

section \<open>Facts about history fields\<close>

lemma run_then_rest:
  assumes "list_all P xs" and "rest = [] \<or> \<not> P (hd rest)"
  shows "takeWhile P (xs @ rest) = xs" and "dropWhile P (xs @ rest) = rest"
proof -
  from assms(1) have all: "\<And>x. x \<in> set xs \<Longrightarrow> P x" by (simp add: list_all_iff)
  from assms(2) have t: "takeWhile P rest = []" and d: "dropWhile P rest = rest"
    by (cases rest; auto)+
  show "takeWhile P (xs @ rest) = xs"
    using takeWhile_append2 [of xs P rest] all t by simp
  show "dropWhile P (xs @ rest) = rest"
    using dropWhile_append2 [of xs P rest] all d by simp
qed

lemma quote_not_decimal: "\<not> is_decimal (CHR 0x22)"
  by (simp add: is_decimal_def)

lemma brace_not_decimal: "\<not> is_decimal (CHR ''{'')"
  by (simp add: is_decimal_def)

lemma decimal_not_quote: "list_all is_decimal ds \<Longrightarrow> list_all (\<lambda>c. c \<noteq> CHR 0x22) ds"
  by (induction ds) (auto simp: is_decimal_def)

lemma hist_at_field:
  assumes "ds \<noteq> []" and "list_all is_decimal ds"
    and "vs \<noteq> []" and "list_all is_decimal vs" and "rest = [] \<or> \<not> is_decimal (hd rest)"
  shows \<open>hist_at (''["'' @ (CHR ''H'' # ds) @ ''"] = '' @ vs @ rest) = Some (CHR ''H'' # ds, vs)\<close>
proof -
  have p: \<open>strip_prefix ''["H'' (''["'' @ (CHR ''H'' # ds) @ ''"] = '' @ vs @ rest)
             = Some (ds @ ''"] = '' @ vs @ rest)\<close>
    by (simp add: strip_prefix_Some)
  have t1: \<open>takeWhile is_decimal (ds @ ''"] = '' @ vs @ rest) = ds\<close>
    and d1: \<open>dropWhile is_decimal (ds @ ''"] = '' @ vs @ rest) = ''"] = '' @ vs @ rest\<close>
    using run_then_rest [OF assms(2), of \<open>''"] = '' @ vs @ rest\<close>] quote_not_decimal by simp_all
  have q: \<open>strip_prefix ''"] = '' (''"] = '' @ vs @ rest) = Some (vs @ rest)\<close>
    by (simp add: strip_prefix_Some)
  have t2: "takeWhile is_decimal (vs @ rest) = vs"
    using run_then_rest [OF assms(4,5)] by simp
  show ?thesis
    unfolding hist_at_def p option.case Let_def t1 d1 q t2 using assms(1,3) by simp
qed

lemma hist_match_field:
  assumes "CHR ''['' \<notin> set ws" and "ds \<noteq> []" and "list_all is_decimal ds"
    and "vs \<noteq> []" and "list_all is_decimal vs" and "rest = [] \<or> \<not> is_decimal (hd rest)"
  shows \<open>hist_match (ws @ ''["'' @ (CHR ''H'' # ds) @ ''"] = '' @ vs @ rest)
           = Some (CHR ''H'' # ds, vs)\<close>
proof -
  let ?s = \<open>''["'' @ (CHR ''H'' # ds) @ ''"] = '' @ vs @ rest\<close>
  have "re_search hist_at (ws @ ?s) = re_search hist_at ?s"
    using assms(1) by (intro re_search_skip hist_at_bracket) auto
  moreover have "re_search hist_at ?s = Some (CHR ''H'' # ds, vs)"
    using hist_at_field [OF assms(2-6)] by simp
  ultimately show ?thesis unfolding hist_match_def by simp
qed

lemma dropWhile_space_bracket:
  assumes "CHR ''['' \<notin> set ws"
  shows "dropWhile is_space (ws @ CHR ''['' # t) = CHR ''['' # t \<or>
         (\<exists>c u. dropWhile is_space (ws @ CHR ''['' # t) = c # u \<and> c \<noteq> CHR ''['')"
  using assms by (induction ws) (auto simp: bracket_not_space)

lemma field_line_not_open:
  assumes "CHR ''['' \<notin> set ws" and "CHR 0x22 \<notin> set key" and "vs \<noteq> []" and "list_all is_decimal vs"
  shows \<open>entity_open (ws @ ''["'' @ key @ ''"] = '' @ vs @ rest) = None\<close>
proof -
  let ?t = \<open>CHR 0x22 # key @ ''"] = '' @ vs @ rest\<close>
  have line: \<open>ws @ ''["'' @ key @ ''"] = '' @ vs @ rest = ws @ CHR ''['' # ?t\<close> by simp
  have tw: \<open>takeWhile (\<lambda>c. c \<noteq> CHR 0x22) (key @ ''"] = '' @ vs @ rest) = key\<close>
    and dw: \<open>dropWhile (\<lambda>c. c \<noteq> CHR 0x22) (key @ ''"] = '' @ vs @ rest) = ''"] = '' @ vs @ rest\<close>
    using assms(2) by (induction key) auto
  from assms(3,4) obtain v vs' where vs: "vs = v # vs'" "is_decimal v" by (cases vs) auto
  then have "v \<noteq> CHR ''{''" using brace_not_decimal by auto
  with vs have sp: \<open>strip_prefix ''"] = {'' (''"] = '' @ vs @ rest) = None\<close> by simp
  have q: "quoted_key_open_at (CHR ''['' # ?t) = None"
    unfolding quoted_key_open_at_def using tw dw sp by (simp add: Let_def)
  from dropWhile_space_bracket [OF assms(1), of ?t]
  consider "dropWhile is_space (ws @ CHR ''['' # ?t) = CHR ''['' # ?t"
    | c u where "dropWhile is_space (ws @ CHR ''['' # ?t) = c # u" "c \<noteq> CHR ''[''"
    by blast
  then have "quoted_key_open_at (dropWhile is_space (ws @ CHR ''['' # ?t)) = None"
  proof cases
    case 1
    with q show ?thesis by (simp only:)
  next
    case 2
    from quoted_key_open_at_bracket [OF 2(2), of u] show ?thesis
      by (simp only: 2(1))
  qed
  then show ?thesis
    unfolding line entity_open_def item_name_match_def by simp
qed

lemma update_new_key: "k \<notin> fst ` set al \<Longrightarrow> AList.update k v al = al @ [(k, v)]"
  by (induction al) auto

lemma history_fold:
  assumes "distinct (map fst (acc @ d))"
  shows "foldl (\<lambda>h (key, v). if is_history_key key then AList.update key v h else h) acc d
           = acc @ filter (\<lambda>(key, v). is_history_key key) d"
  using assms
proof (induction d arbitrary: acc)
  case Nil
  show ?case by simp
next
  case (Cons e d)
  obtain k v where e: "e = (k, v)" by (cases e)
  show ?case
  proof (cases "is_history_key k")
    case True
    from Cons.prems e have "k \<notin> fst ` set acc" by auto
    then have u: "AList.update k v acc = acc @ [(k, v)]" by (rule update_new_key)
    from Cons.prems e have "distinct (map fst ((acc @ [(k, v)]) @ d))" by simp
    from Cons.IH [OF this] True e u show ?thesis by simp
  next
    case False
    from Cons.prems e have "distinct (map fst (acc @ d))" by simp
    from Cons.IH [OF this] False e show ?thesis by simp
  qed
qed

lemma history_filter:
  "distinct (map fst d) \<Longrightarrow>
     history (make_entry (n, d)) = filter (\<lambda>(key, v). is_history_key key) d"
  using history_fold [of "[]" d] by (simp add: make_entry_def)

lemma map_of_filter_key:
  "map_of (filter (\<lambda>(key, v). P key) d) k = (if P k then map_of d k else None)"
  by (induction d) auto

lemma history_lookup:
  "distinct (map fst d) \<Longrightarrow>
     map_of (history (make_entry (n, d))) k = (if is_history_key k then map_of d k else None)"
  by (simp add: history_filter map_of_filter_key)

lemma scan_data_distinct: "distinct (map fst (current_item_data (scan_lines ls)))"
proof (cases "current_item_name (scan_lines ls)")
  case None
  with scan_inv_scan_lines [of ls] show ?thesis by (simp add: scan_inv_def)
next
  case (Some n)
  with scan_inv_scan_lines [of ls] have "open_span ls n (current_item_data (scan_lines ls))"
    by (simp add: scan_inv_def)
  then obtain body where "current_item_data (scan_lines ls) = collect [] body"
    unfolding open_span_def by blast
  then show ?thesis using collect_distinct [of "[]" body] by simp
qed

lemma is_history_key_H:
  assumes "ds \<noteq> []" and "list_all is_decimal ds"
  shows "is_history_key (CHR ''H'' # ds)"
proof -
  from assms(2) have "list_all isdigit_char ds"
    by (induction ds) (auto simp: isdigit_char_def)
  with assms(1) show ?thesis
    by (simp add: is_history_key_def startswith_def isdigit_def)
qed

lemma extract_fields_hist:
  "hist_match line = Some (k, v) \<Longrightarrow> map_of (extract_fields line d) k = Some (py_int v)"
  by (simp add: extract_fields_def Let_def update_conv' split: option.splits)

section \<open>Facts about written fields\<close>

lemma decimal_no_bracket: "list_all is_decimal ds \<Longrightarrow> CHR ''['' \<notin> set ds"
  by (induction ds) (auto simp: is_decimal_def)

lemma decimal_no_quote: "list_all is_decimal ds \<Longrightarrow> CHR 0x22 \<notin> set ds"
  by (induction ds) (auto simp: is_decimal_def)

lemma is_field_key_cases:
  "is_field_key k \<longleftrightarrow>
     k = ''lastScan'' \<or> k = ''mr'' \<or> (\<exists>ds. k = CHR ''H'' # ds \<and> ds \<noteq> [] \<and> list_all is_decimal ds)"
  unfolding is_field_key_def by (cases k) auto

lemma is_field_key_chars:
  assumes "is_field_key k"
  shows "CHR ''['' \<notin> set k" and "CHR 0x22 \<notin> set k"
proof -
  from assms consider "k = ''lastScan''" | "k = ''mr''"
    | ds where "k = CHR ''H'' # ds" "list_all is_decimal ds"
    unfolding is_field_key_cases by blast
  then show "CHR ''['' \<notin> set k"
    by cases (simp_all add: decimal_no_bracket)
  from assms consider "k = ''lastScan''" | "k = ''mr''"
    | ds where "k = CHR ''H'' # ds" "list_all is_decimal ds"
    unfolding is_field_key_cases by blast
  then show "CHR 0x22 \<notin> set k"
    by cases (simp_all add: decimal_no_quote)
qed

lemma single_bracket_search:
  assumes "CHR ''['' \<notin> set ws" and "CHR ''['' \<notin> set t"
    and "m [] = None" and "\<And>c u. c \<noteq> CHR ''['' \<Longrightarrow> m (c # u) = None"
  shows "re_search m (ws @ CHR ''['' # t) = m (CHR ''['' # t)"
proof -
  have a: "re_search m (ws @ CHR ''['' # t) = re_search m (CHR ''['' # t)"
  proof (rule re_search_skip)
    fix c u
    assume "c \<in> set ws"
    with assms(1) have "c \<noteq> CHR ''[''" by blast
    then show "m (c # u) = None" by (rule assms(4))
  qed
  have b: "re_search m t = None"
  proof (rule re_search_no_start)
    show "m [] = None" by (rule assms(3))
  next
    fix c u
    assume "c \<in> set t"
    with assms(2) have "c \<noteq> CHR ''[''" by blast
    then show "m (c # u) = None" by (rule assms(4))
  qed
  show ?thesis
    unfolding a by (cases "m (CHR ''['' # t)") (simp_all add: b)
qed

lemma comma_not_decimal: "\<not> is_decimal (CHR '','')"
  by (simp add: is_decimal_def)

lemma field_line_matches:
  assumes "valid_field (ws, k, v)"
  shows "scan_match (field_line ws k v) = (if k = ''lastScan'' then Some v else None)"
    and "mr_match (field_line ws k v) = (if k = ''mr'' then Some v else None)"
    and "hist_match (field_line ws k v) = (if k \<noteq> ''lastScan'' \<and> k \<noteq> ''mr'' then Some (k, v) else None)"
proof -
  from assms have ws: "CHR ''['' \<notin> set ws" and key: "is_field_key k"
    and v: "v \<noteq> []" "list_all is_decimal v"
    by (simp_all add: valid_field_def)
  let ?t = \<open>CHR 0x22 # k @ ''"] = '' @ v @ '',''\<close>
  have fl: "field_line ws k v = ws @ CHR ''['' # ?t"
    by (simp add: field_line_def)
  have t: "CHR ''['' \<notin> set ?t"
    using is_field_key_chars(1) [OF key] decimal_no_bracket [OF v(2)] by simp
  have tv: "takeWhile is_decimal (v @ '','') = v"
    using run_then_rest(1) [OF v(2), of "'',''"] comma_not_decimal by simp
  have s: "scan_match (field_line ws k v) = int_field_at ''lastScan'' (CHR ''['' # ?t)"
    unfolding scan_match_def fl
    by (rule single_bracket_search [OF ws t int_field_at_Nil int_field_at_bracket])
  have m: "mr_match (field_line ws k v) = int_field_at ''mr'' (CHR ''['' # ?t)"
    unfolding mr_match_def fl
    by (rule single_bracket_search [OF ws t int_field_at_Nil int_field_at_bracket])
  have h: "hist_match (field_line ws k v) = hist_at (CHR ''['' # ?t)"
    unfolding hist_match_def fl
    by (rule single_bracket_search [OF ws t hist_at_Nil hist_at_bracket])
  from key consider (scan) "k = ''lastScan''" | (mr) "k = ''mr''"
    | (hist) ds where "k = CHR ''H'' # ds" "ds \<noteq> []" "list_all is_decimal ds"
    unfolding is_field_key_cases by blast
  then have "int_field_at ''lastScan'' (CHR ''['' # ?t) = (if k = ''lastScan'' then Some v else None)
    \<and> int_field_at ''mr'' (CHR ''['' # ?t) = (if k = ''mr'' then Some v else None)
    \<and> hist_at (CHR ''['' # ?t) = (if k \<noteq> ''lastScan'' \<and> k \<noteq> ''mr'' then Some (k, v) else None)"
  proof cases
    case scan
    have \<open>int_field_at ''lastScan'' (CHR ''['' # CHR 0x22 # ''lastScan'' @ ''"] = '' @ v @ '','') = Some v\<close>
      using v(1) tv by (simp add: int_field_at_def)
    moreover have \<open>int_field_at ''mr'' (CHR ''['' # CHR 0x22 # ''lastScan'' @ ''"] = '' @ v @ '','') = None\<close>
      by (simp add: int_field_at_def)
    moreover have \<open>hist_at (CHR ''['' # CHR 0x22 # ''lastScan'' @ ''"] = '' @ v @ '','') = None\<close>
      by (simp add: hist_at_def)
    ultimately show ?thesis unfolding scan by simp
  next
    case mr
    have \<open>int_field_at ''lastScan'' (CHR ''['' # CHR 0x22 # ''mr'' @ ''"] = '' @ v @ '','') = None\<close>
      by (simp add: int_field_at_def)
    moreover have \<open>int_field_at ''mr'' (CHR ''['' # CHR 0x22 # ''mr'' @ ''"] = '' @ v @ '','') = Some v\<close>
      using v(1) tv by (simp add: int_field_at_def)
    moreover have \<open>hist_at (CHR ''['' # CHR 0x22 # ''mr'' @ ''"] = '' @ v @ '','') = None\<close>
      by (simp add: hist_at_def)
    ultimately show ?thesis unfolding mr by simp
  next
    case hist
    have a: \<open>hist_at (CHR ''['' # CHR 0x22 # (CHR ''H'' # ds) @ ''"] = '' @ v @ '','') = Some (CHR ''H'' # ds, v)\<close>
      using hist_at_field [OF hist(2,3) v, of "'',''"] comma_not_decimal by simp
    have b: \<open>int_field_at ''lastScan'' (CHR ''['' # CHR 0x22 # (CHR ''H'' # ds) @ ''"] = '' @ v @ '','') = None\<close>
      by (simp add: int_field_at_def)
    have c: \<open>int_field_at ''mr'' (CHR ''['' # CHR 0x22 # (CHR ''H'' # ds) @ ''"] = '' @ v @ '','') = None\<close>
      by (simp add: int_field_at_def)
    have d: "CHR ''H'' # ds \<noteq> ''lastScan''" "CHR ''H'' # ds \<noteq> ''mr''" by simp_all
    show ?thesis unfolding hist(1) a b c using d by simp
  qed
  then have r1: "int_field_at ''lastScan'' (CHR ''['' # ?t) = (if k = ''lastScan'' then Some v else None)"
    and r2: "int_field_at ''mr'' (CHR ''['' # ?t) = (if k = ''mr'' then Some v else None)"
    and r3: "hist_at (CHR ''['' # ?t) = (if k \<noteq> ''lastScan'' \<and> k \<noteq> ''mr'' then Some (k, v) else None)"
    by blast+
  show "scan_match (field_line ws k v) = (if k = ''lastScan'' then Some v else None)"
    unfolding s by (rule r1)
  show "mr_match (field_line ws k v) = (if k = ''mr'' then Some v else None)"
    unfolding m by (rule r2)
  show "hist_match (field_line ws k v) = (if k \<noteq> ''lastScan'' \<and> k \<noteq> ''mr'' then Some (k, v) else None)"
    unfolding h by (rule r3)
qed

lemma extract_fields_field_line:
  assumes "valid_field (ws, k, v)"
  shows "extract_fields (field_line ws k v) d = AList.update k (py_int v) d"
proof (cases "k = ''lastScan''")
  case True
  then show ?thesis
    unfolding extract_fields_def field_line_matches [OF assms] by (simp add: Let_def)
next
  case False
  then show ?thesis
    unfolding extract_fields_def field_line_matches [OF assms]
    by (cases "k = ''mr''") (simp_all add: Let_def)
qed

lemma field_line_plain:
  assumes "valid_field (ws, k, v)"
  shows "entity_open (field_line ws k v) = None \<and> strip (field_line ws k v) \<noteq> ''},''"
proof -
  from assms have ws: "CHR ''['' \<notin> set ws" and key: "is_field_key k"
    and v: "v \<noteq> []" "list_all is_decimal v"
    by (simp_all add: valid_field_def)
  have "entity_open (field_line ws k v) = None"
    unfolding field_line_def
    by (rule field_line_not_open [OF ws is_field_key_chars(2) [OF key] v])
  moreover have "CHR ''['' \<in> set (field_line ws k v)"
    by (simp add: field_line_def)
  then have "strip (field_line ws k v) \<noteq> ''},''"
    using terminator_no_bracket [of "field_line ws k v"] by blast
  ultimately show ?thesis by simp
qed

lemma field_line_has_field: "valid_field (ws, k, v) \<Longrightarrow> has_field (field_line ws k v)"
  by (simp add: has_field_def extract_fields_field_line update_not_Nil)

lemma collect_written:
  "list_all valid_field fs \<Longrightarrow>
     collect d (map (\<lambda>(ws, k, v). field_line ws k v) fs)
       = foldl (\<lambda>d (ws, k, v). AList.update k (py_int v) d) d fs"
proof (induction fs arbitrary: d)
  case Nil
  show ?case by (simp add: collect_def)
next
  case (Cons f fs)
  obtain ws k v where f: "f = (ws, k, v)" by (cases f)
  with Cons.prems have vf: "valid_field (ws, k, v)" and rest: "list_all valid_field fs"
    by simp_all
  have "collect d (map (\<lambda>(ws, k, v). field_line ws k v) (f # fs))
      = collect (extract_fields (field_line ws k v) d) (map (\<lambda>(ws, k, v). field_line ws k v) fs)"
    by (simp add: collect_def f)
  then show ?case
    using Cons.IH [OF rest] extract_fields_field_line [OF vf] f by simp
qed

lemma written_lines_plain:
  "list_all valid_field fs \<Longrightarrow>
     \<forall>l\<in>set (map (\<lambda>(ws, k, v). field_line ws k v) fs). entity_open l = None \<and> strip l \<noteq> ''},''"
  using field_line_plain by (auto simp: list_all_iff)

lemma written_lines_have_field:
  "list_all valid_field fs \<Longrightarrow> fs \<noteq> [] \<Longrightarrow>
     \<exists>l\<in>set (map (\<lambda>(ws, k, v). field_line ws k v) fs). has_field l"
proof -
  assume a: "list_all valid_field fs" "fs \<noteq> []"
  then obtain f fs' where f: "fs = f # fs'" by (cases fs) auto
  obtain ws k v where "f = (ws, k, v)" by (cases f)
  with a f have "has_field (field_line ws k v)"
    by (simp add: field_line_has_field)
  with f \<open>f = (ws, k, v)\<close> show ?thesis by auto
qed

lemma last_span_record:
  assumes "ls = pre @ ol # body @ c # post"
    and "entity_open ol = Some n"
    and "\<forall>l\<in>set body. entity_open l = None \<and> strip l \<noteq> ''},''"
    and "\<exists>l\<in>set body. has_field l"
    and "strip c = ''},'' \<or> entity_open c \<noteq> None"
    and "\<forall>l\<in>set (c # post). entity_open l \<noteq> Some n"
  shows "filter (\<lambda>e. fst e = n) (items (scan_lines ls)) = [(n, collect [] body)]"
proof -
  let ?st = "scan_lines (pre @ ol # body @ [c])"
  have st: "?st = \<lparr>items = AList.update n (collect [] body) (items (scan_lines (pre @ [ol]))),
                   current_item_name = entity_open c, current_item_data = []\<rparr>"
    by (rule scan_span_closed [OF assms(2-5)])
  have cur: "current_item_name ?st \<noteq> Some n"
    using st assms(6) by simp
  have "ls = (pre @ ol # body @ [c]) @ post"
    using assms(1) by simp
  then have "scan_lines ls = foldl process_line ?st post"
    by (simp only: scan_lines_append)
  moreover have "\<forall>l\<in>set post. entity_open l \<noteq> Some n"
    using assms(6) by simp
  ultimately have "map_of (items (scan_lines ls)) n = map_of (items ?st) n"
    using other_name_fold [OF cur] by simp
  also have "\<dots> = Some (collect [] body)"
    using st by (simp add: update_conv')
  finally show ?thesis
    using distinct_one_record [OF scan_items_distinct] by blast
qed

section \<open>Facts about the delimited literal and the field patterns\<close>

lemma then_occurs_iff:
  assumes "a \<noteq> []"
  shows "then_occurs a b s \<longleftrightarrow> (\<exists>pre mid post. s = pre @ a @ mid @ b @ post)"
proof (induction s)
  case Nil
  show ?case using assms by simp
next
  case (Cons c cs)
  show ?case
  proof
    assume "then_occurs a b (c # cs)"
    then consider r where "strip_prefix a (c # cs) = Some r" "occurs b r"
      | "then_occurs a b cs"
      by (auto split: option.splits)
    then show "\<exists>pre mid post. c # cs = pre @ a @ mid @ b @ post"
    proof cases
      case 1
      from 1(2) obtain x y where "r = x @ b @ y" unfolding occurs_iff by blast
      with 1(1) have "c # cs = [] @ a @ x @ b @ y"
        by (simp add: strip_prefix_Some)
      then show ?thesis by blast
    next
      case 2
      with Cons.IH obtain pre mid post where "cs = pre @ a @ mid @ b @ post"
        by blast
      then have "c # cs = (c # pre) @ a @ mid @ b @ post" by simp
      then show ?thesis by blast
    qed
  next
    assume "\<exists>pre mid post. c # cs = pre @ a @ mid @ b @ post"
    then obtain pre mid post where e: "c # cs = pre @ a @ mid @ b @ post"
      by blast
    show "then_occurs a b (c # cs)"
    proof (cases pre)
      case Nil
      with e have "strip_prefix a (c # cs) = Some (mid @ b @ post)"
        by (simp add: strip_prefix_Some)
      moreover have "occurs b (mid @ b @ post)"
        unfolding occurs_iff by blast
      ultimately show ?thesis by simp
    next
      case (Cons x pre')
      with e have "cs = pre' @ a @ mid @ b @ post" by simp
      with Cons.IH have "then_occurs a b cs" by blast
      then show ?thesis by simp
    qed
  qed
qed

lemma literal_delimited_iff:
  "literal_delimited content \<longleftrightarrow>
     (\<exists>pre mid post. content = pre @ start_marker @ mid @ CHR ''}'' # end_marker @ post)"
proof -
  have "start_marker \<noteq> []" by (simp add: start_marker_def)
  from then_occurs_iff [OF this, of "CHR ''}'' # end_marker" content]
  show ?thesis unfolding literal_delimited_def by simp
qed

lemma lazy_until_complete: "lazy_until e (a @ e @ b) \<noteq> None"
proof (induction a)
  case Nil
  have "strip_prefix e (e @ b) = Some b" by (simp add: strip_prefix_Some)
  then show ?case by (cases "e @ b") simp_all
next
  case (Cons x a)
  then obtain r where "lazy_until e (a @ e @ b) = Some r" by blast
  then show ?case by (cases "strip_prefix e (x # a @ e @ b)") simp_all
qed

lemma database_match_delimited:
  "database_match content \<noteq> None \<longleftrightarrow> literal_delimited content"
proof
  assume "database_match content \<noteq> None"
  then obtain lua_data where "database_match content = Some lua_data" by blast
  then obtain pre suf where c: "content = pre @ suf" and d: "database_at suf = Some lua_data"
    unfolding database_match_def re_search_Some by blast
  from d obtain r b where r: "suf = ''AUCTIONATOR_PRICE_DATABASE = {'' @ r"
    and b: "lazy_until (''}'' @ [CHR 0x0A] @ ''AUCTIONATOR_LAST_SCAN_TIME'') r = Some b"
    unfolding database_at_def by (auto simp: strip_prefix_Some split: option.splits)
  from lazy_until_Some [OF b] obtain rest
    where "r = b @ (''}'' @ [CHR 0x0A] @ ''AUCTIONATOR_LAST_SCAN_TIME'') @ rest" by blast
  then have "r = b @ CHR ''}'' # end_marker @ rest" by (simp add: end_marker_def)
  with c r have "content = pre @ start_marker @ b @ CHR ''}'' # end_marker @ rest"
    by (simp add: start_marker_def)
  then show "literal_delimited content" unfolding literal_delimited_iff by blast
next
  assume "literal_delimited content"
  then obtain pre mid post
    where c: "content = pre @ start_marker @ mid @ CHR ''}'' # end_marker @ post"
    unfolding literal_delimited_iff by blast
  let ?e = "''}'' @ [CHR 0x0A] @ ''AUCTIONATOR_LAST_SCAN_TIME''"
  have "mid @ CHR ''}'' # end_marker @ post = mid @ ?e @ post"
    by (simp add: end_marker_def)
  then have "lazy_until ?e (mid @ CHR ''}'' # end_marker @ post) \<noteq> None"
    using lazy_until_complete [of ?e mid post] by simp
  then have found: "database_at (start_marker @ mid @ CHR ''}'' # end_marker @ post) \<noteq> None"
    unfolding database_at_def start_marker_def
    by (simp only: strip_prefix_append option.case) (auto split: option.splits)
  show "database_match content \<noteq> None"
  proof
    assume "database_match content = None"
    then have "\<forall>p suf. content = p @ suf \<longrightarrow> database_at suf = None"
      unfolding database_match_def by (simp only: re_search_None)
    then have "database_at (start_marker @ mid @ CHR ''}'' # end_marker @ post) = None"
      using c by blast
    with found show False by simp
  qed
qed

lemma has_field_matches:
  "has_field line \<longleftrightarrow>
     scan_match line \<noteq> None \<or> mr_match line \<noteq> None \<or> hist_match line \<noteq> None"
  unfolding has_field_def
  by (cases "scan_match line"; cases "mr_match line"; cases "hist_match line")
    (auto simp: extract_fields_def Let_def update_not_Nil simp del: AList.update.simps)

lemma re_search_found:
  "re_search m s \<noteq> None \<longleftrightarrow> (\<exists>pre suf. s = pre @ suf \<and> m suf \<noteq> None)"
  by (simp add: re_search_None)

lemma int_field_at_found:
  \<open>int_field_at key s \<noteq> None \<longleftrightarrow>
     (\<exists>c rest. s = ''["'' @ key @ ''"] = '' @ c # rest \<and> is_decimal c)\<close>
proof
  assume "int_field_at key s \<noteq> None"
  then obtain r where r: \<open>s = (''["'' @ key @ ''"] = '') @ r\<close>
    and t: "takeWhile is_decimal r \<noteq> []"
    unfolding int_field_at_def
    by (auto simp: strip_prefix_Some Let_def split: option.splits if_splits)
  from t obtain c rest where "r = c # rest" "is_decimal c"
    by (cases r) (auto split: if_splits)
  with r show \<open>\<exists>c rest. s = ''["'' @ key @ ''"] = '' @ c # rest \<and> is_decimal c\<close>
    by auto
next
  assume \<open>\<exists>c rest. s = ''["'' @ key @ ''"] = '' @ c # rest \<and> is_decimal c\<close>
  then obtain c rest where s: \<open>s = (''["'' @ key @ ''"] = '') @ c # rest\<close> and c: "is_decimal c"
    by auto
  have "strip_prefix (''[\"'' @ key @ ''\"] = '') s = Some (c # rest)"
    unfolding s by (rule strip_prefix_append)
  then show "int_field_at key s \<noteq> None"
    unfolding int_field_at_def using c by (simp add: Let_def)
qed

lemma hist_at_found:
  \<open>hist_at s \<noteq> None \<longleftrightarrow>
     (\<exists>ds c rest. s = ''["'' @ (CHR ''H'' # ds) @ ''"] = '' @ c # rest \<and>
        ds \<noteq> [] \<and> list_all is_decimal ds \<and> is_decimal c)\<close>
proof
  assume "hist_at s \<noteq> None"
  then obtain r t where r: \<open>s = ''["H'' @ r\<close>
    and ds: "takeWhile is_decimal r \<noteq> []"
    and d: \<open>dropWhile is_decimal r = ''"] = '' @ t\<close>
    and t: "takeWhile is_decimal t \<noteq> []"
    unfolding hist_at_def
    by (auto simp: strip_prefix_Some Let_def split: option.splits if_splits)
  from t obtain c rest where c: "t = c # rest" "is_decimal c"
    by (cases t) (auto split: if_splits)
  have "r = takeWhile is_decimal r @ dropWhile is_decimal r" by simp
  with d c(1) have \<open>r = takeWhile is_decimal r @ ''"] = '' @ c # rest\<close> by simp
  with r have \<open>s = ''["'' @ (CHR ''H'' # takeWhile is_decimal r) @ ''"] = '' @ c # rest\<close>
    by simp
  moreover have "list_all is_decimal (takeWhile is_decimal r)"
    by (auto simp: list_all_iff dest: set_takeWhileD)
  ultimately show \<open>\<exists>ds c rest. s = ''["'' @ (CHR ''H'' # ds) @ ''"] = '' @ c # rest \<and>
        ds \<noteq> [] \<and> list_all is_decimal ds \<and> is_decimal c\<close>
    using ds c(2) by blast
next
  assume \<open>\<exists>ds c rest. s = ''["'' @ (CHR ''H'' # ds) @ ''"] = '' @ c # rest \<and>
        ds \<noteq> [] \<and> list_all is_decimal ds \<and> is_decimal c\<close>
  then obtain ds c rest where s: \<open>s = ''["'' @ (CHR ''H'' # ds) @ ''"] = '' @ c # rest\<close>
    and ds: "ds \<noteq> []" "list_all is_decimal ds" and c: "is_decimal c"
    by blast
  let ?vs = "takeWhile is_decimal (c # rest)"
  let ?rest = "dropWhile is_decimal (c # rest)"
  have vs: "?vs \<noteq> []" using c by simp
  have all: "list_all is_decimal ?vs"
    by (auto simp: list_all_iff dest: set_takeWhileD)
  have stop: "?rest = [] \<or> \<not> is_decimal (hd ?rest)"
    using hd_dropWhile [of is_decimal "c # rest"] by blast
  have "c # rest = ?vs @ ?rest" by simp
  with s have \<open>s = ''["'' @ (CHR ''H'' # ds) @ ''"] = '' @ ?vs @ ?rest\<close> by simp
  then have "hist_at s = Some (CHR ''H'' # ds, ?vs)"
    using hist_at_field [OF ds vs all stop] by simp
  then show "hist_at s \<noteq> None" by simp
qed

lemma has_field_iff:
  \<open>has_field line \<longleftrightarrow>
     (\<exists>pre k c rest. line = pre @ ''["'' @ k @ ''"] = '' @ c # rest \<and> is_decimal c \<and>
        is_field_key k)\<close>
proof
  assume "has_field line"
  then consider "scan_match line \<noteq> None" | "mr_match line \<noteq> None" | "hist_match line \<noteq> None"
    unfolding has_field_matches by blast
  then show \<open>\<exists>pre k c rest. line = pre @ ''["'' @ k @ ''"] = '' @ c # rest \<and> is_decimal c \<and>
        is_field_key k\<close>
  proof cases
    case 1
    then obtain pre c rest where \<open>line = pre @ ''["'' @ ''lastScan'' @ ''"] = '' @ c # rest\<close>
      "is_decimal c"
      unfolding scan_match_def re_search_found int_field_at_found by blast
    moreover have "is_field_key ''lastScan''" by (simp add: is_field_key_def)
    ultimately show ?thesis by blast
  next
    case 2
    then obtain pre c rest where \<open>line = pre @ ''["'' @ ''mr'' @ ''"] = '' @ c # rest\<close>
      "is_decimal c"
      unfolding mr_match_def re_search_found int_field_at_found by blast
    moreover have "is_field_key ''mr''" by (simp add: is_field_key_def)
    ultimately show ?thesis by blast
  next
    case 3
    then obtain pre ds c rest
      where \<open>line = pre @ ''["'' @ (CHR ''H'' # ds) @ ''"] = '' @ c # rest\<close>
      "ds \<noteq> []" "list_all is_decimal ds" "is_decimal c"
      unfolding hist_match_def re_search_found hist_at_found by blast
    moreover from this(2,3) have "is_field_key (CHR ''H'' # ds)"
      unfolding is_field_key_cases by blast
    ultimately show ?thesis by blast
  qed
next
  assume \<open>\<exists>pre k c rest. line = pre @ ''["'' @ k @ ''"] = '' @ c # rest \<and> is_decimal c \<and>
        is_field_key k\<close>
  then obtain pre k c rest where l: \<open>line = pre @ ''["'' @ k @ ''"] = '' @ c # rest\<close>
    and c: "is_decimal c" and k: "is_field_key k"
    by blast
  from k consider "k = ''lastScan''" | "k = ''mr''"
    | ds where "k = CHR ''H'' # ds" "ds \<noteq> []" "list_all is_decimal ds"
    unfolding is_field_key_cases by blast
  then show "has_field line"
  proof cases
    case 1
    with l c have "scan_match line \<noteq> None"
      unfolding scan_match_def re_search_found int_field_at_found by blast
    then show ?thesis unfolding has_field_matches by blast
  next
    case 2
    with l c have "mr_match line \<noteq> None"
      unfolding mr_match_def re_search_found int_field_at_found by blast
    then show ?thesis unfolding has_field_matches by blast
  next
    case 3
    with l c have "hist_match line \<noteq> None"
      unfolding hist_match_def re_search_found hist_at_found by blast
    then show ?thesis unfolding has_field_matches by blast
  qed
qed

lemma hist_match_occurs:
  assumes "hist_match l = Some (k, v)"
  shows \<open>occurs (''["'' @ k @ ''"] = '') l\<close>
proof -
  from assms obtain pre suf where l: "l = pre @ suf" and h: "hist_at suf = Some (k, v)"
    unfolding hist_match_def re_search_Some by blast
  from h obtain r t where r: \<open>suf = ''["H'' @ r\<close>
    and k: "k = CHR ''H'' # takeWhile is_decimal r"
    and d: \<open>dropWhile is_decimal r = ''"] = '' @ t\<close>
    unfolding hist_at_def
    by (auto simp: strip_prefix_Some Let_def split: option.splits if_splits)
  have "r = takeWhile is_decimal r @ dropWhile is_decimal r" by simp
  with d have \<open>r = takeWhile is_decimal r @ ''"] = '' @ t\<close> by simp
  with r k have \<open>suf = (''["'' @ k @ ''"] = '') @ t\<close> by simp
  with l have \<open>l = pre @ (''["'' @ k @ ''"] = '') @ t\<close> by simp
  then show ?thesis unfolding occurs_iff by blast
qed

lemma extract_fields_keeps:
  assumes \<open>\<not> occurs (''["'' @ key @ ''"] = '') l\<close> and "key \<noteq> ''lastScan''" and "key \<noteq> ''mr''"
  shows "map_of (extract_fields l d) key = map_of d key"
proof -
  have h: "hist_match l \<noteq> Some (key, v)" for v
    using hist_match_occurs [of l key v] assms(1) by blast
  show ?thesis
    unfolding extract_fields_def
    using assms(2,3) h by (auto simp: Let_def update_conv' split: option.splits)
qed

lemma collect_keeps:
  assumes \<open>\<forall>l\<in>set body. \<not> occurs (''["'' @ key @ ''"] = '') l\<close>
    and "key \<noteq> ''lastScan''" and "key \<noteq> ''mr''"
  shows "map_of (collect d body) key = map_of d key"
  using assms(1)
proof (induction body arbitrary: d)
  case Nil
  show ?case by (simp add: collect_def)
next
  case (Cons l body)
  have "collect d (l # body) = collect (extract_fields l d) body"
    by (simp add: collect_def)
  moreover have "map_of (extract_fields l d) key = map_of d key"
    using Cons.prems assms(2,3) by (intro extract_fields_keeps) simp_all
  ultimately show ?case using Cons by simp
qed

lemma collect_append: "collect d (xs @ ys) = collect (collect d xs) ys"
  by (simp add: collect_def)

lemma name_make_entry: "name (make_entry e) = fst e"
  by (cases e) (simp add: make_entry_def)

lemma filter_entries:
  "filter (\<lambda>e. name e = n) (map make_entry its) = map make_entry (filter (\<lambda>e. fst e = n) its)"
  by (induction its) (simp_all add: name_make_entry)

section \<open>Entities in the output\<close>

text \<open>
  Claim C2, amended. Let \<open>lua_data\<close> be the literal found in the content. The mapping that
  \<^const>\<open>parse_lua_file\<close> returns has every name once, and a name is in it exactly when the
  lines of the literal hold an occurrence of that entity with a field line: a line that
  opens the entity, then lines that neither open an entity nor are the terminator, at
  least one of them a field line, then a line that closes the entity (the terminator or
  the next opening line). A field line is, by its text, a line that holds somewhere a
  bracket-quoted key \<open>lastScan\<close>, \<open>mr\<close> or H with digits, then \<open> = \<close> and a digit. So
  an entity with such a line between its opening line and its close is in the output
  once, under its declared name, and a name whose occurrences all collect no field is
  absent.
\<close>

theorem entities_with_fields_appear_once:
  assumes "database_match content = Some lua_data"
  shows \<open>(\<exists>its. parse_lua_file content = Parsed (realm_match lua_data) its \<and>
           distinct (map fst its) \<and>
           (\<forall>n. n \<in> fst ` set its \<longleftrightarrow>
              (\<exists>pre ol body c post.
                 split_nl lua_data = pre @ ol # body @ c # post \<and>
                 entity_open ol = Some n \<and>
                 (\<forall>l\<in>set body. entity_open l = None \<and> strip l \<noteq> ''},'') \<and>
                 (\<exists>l\<in>set body. has_field l) \<and>
                 (strip c = ''},'' \<or> entity_open c \<noteq> None)))) \<and>
         (\<forall>line. has_field line \<longleftrightarrow>
            (\<exists>pre k c rest. line = pre @ ''["'' @ k @ ''"] = '' @ c # rest \<and> is_decimal c \<and>
               is_field_key k))\<close>
proof (intro conjI allI)
  let ?ls = "split_nl lua_data"
  let ?its = "items (scan_lines ?ls)"
  have p: "parse_lua_file content = Parsed (realm_match lua_data) ?its"
    using assms by (rule parse_lua_file_Parsed)
  have d: "distinct (map fst ?its)"
    by (rule scan_items_distinct)
  have "n \<in> fst ` set ?its \<longleftrightarrow> closed_span ?ls n" for n
  proof
    assume "n \<in> fst ` set ?its"
    then show "closed_span ?ls n" by (rule scan_keys_closed_span)
  next
    assume "closed_span ?ls n"
    then obtain pre ol body c post where h: "?ls = pre @ ol # body @ c # post"
      "entity_open ol = Some n" "\<forall>l\<in>set body. entity_open l = None \<and> strip l \<noteq> ''},''"
      "\<exists>l\<in>set body. has_field l" "strip c = ''},'' \<or> entity_open c \<noteq> None"
      unfolding closed_span_def by blast
    have "n \<in> fst ` set (items (scan_lines (pre @ ol # body @ [c])))"
      using scan_span_closed [OF h(2-5), of pre] by (simp add: dom_update)
    moreover have "scan_lines ?ls = foldl process_line (scan_lines (pre @ ol # body @ [c])) post"
      using scan_lines_append [of "pre @ ol # body @ [c]" post] h(1) by simp
    ultimately show "n \<in> fst ` set ?its"
      using keys_mono [of "scan_lines (pre @ ol # body @ [c])" post] by auto
  qed
  then have "\<forall>n. n \<in> fst ` set ?its \<longleftrightarrow>
              (\<exists>pre ol body c post.
                 ?ls = pre @ ol # body @ c # post \<and>
                 entity_open ol = Some n \<and>
                 (\<forall>l\<in>set body. entity_open l = None \<and> strip l \<noteq> ''},'') \<and>
                 (\<exists>l\<in>set body. has_field l) \<and>
                 (strip c = ''},'' \<or> entity_open c \<noteq> None))"
    unfolding closed_span_def by blast
  with p d show "\<exists>its. parse_lua_file content = Parsed (realm_match lua_data) its \<and>
           distinct (map fst its) \<and>
           (\<forall>n. n \<in> fst ` set its \<longleftrightarrow>
              (\<exists>pre ol body c post.
                 split_nl lua_data = pre @ ol # body @ c # post \<and>
                 entity_open ol = Some n \<and>
                 (\<forall>l\<in>set body. entity_open l = None \<and> strip l \<noteq> ''},'') \<and>
                 (\<exists>l\<in>set body. has_field l) \<and>
                 (strip c = ''},'' \<or> entity_open c \<noteq> None)))"
    by blast
  show \<open>has_field line \<longleftrightarrow>
            (\<exists>pre k c rest. line = pre @ ''["'' @ k @ ''"] = '' @ c # rest \<and> is_decimal c \<and>
               is_field_key k)\<close> for line
    by (rule has_field_iff)
qed

theorem entities_with_fields_appear_once_witness:
  \<open>database_match (wrap_literal (join_nl five_entities)) = Some (join_nl five_entities) \<and>
   parse_lua_file (wrap_literal (join_nl five_entities)) =
     Parsed (Some ''Realm1'')
       [(''Scan'', [(''lastScan'', 1)]), (''Hist'', [(''H1'', 2)]), (''Rate'', [(''mr'', 3)])] \<and>
   (\<exists>pre ol body c post.
      split_nl (join_nl five_entities) = pre @ ol # body @ c # post \<and>
      entity_open ol = Some ''Scan'' \<and>
      (\<forall>l\<in>set body. entity_open l = None \<and> strip l \<noteq> ''},'') \<and>
      (\<exists>l\<in>set body. has_field l) \<and>
      (strip c = ''},'' \<or> entity_open c \<noteq> None)) \<and>
   (\<exists>pre ol body c post.
      split_nl (join_nl five_entities) = pre @ ol # body @ c # post \<and>
      entity_open ol = Some ''Hist'' \<and>
      (\<forall>l\<in>set body. entity_open l = None \<and> strip l \<noteq> ''},'') \<and>
      (\<exists>l\<in>set body. has_field l) \<and>
      (strip c = ''},'' \<or> entity_open c \<noteq> None)) \<and>
   \<not> (\<exists>pre ol body c post.
      split_nl (join_nl five_entities) = pre @ ol # body @ c # post \<and>
      entity_open ol = Some ''Empty'' \<and>
      (\<forall>l\<in>set body. entity_open l = None \<and> strip l \<noteq> ''},'') \<and>
      (\<exists>l\<in>set body. has_field l) \<and>
      (strip c = ''},'' \<or> entity_open c \<noteq> None)) \<and>
   has_field ''   ["lastScan"] = 1,'' \<and>
   (\<exists>pre k c rest. ''   ["lastScan"] = 1,'' = pre @ ''["'' @ k @ ''"] = '' @ c # rest \<and>
      is_decimal c \<and> is_field_key k) \<and>
   \<not> has_field ''   ["L5553"] = 4800,'' \<and>
   \<not> (\<exists>pre k c rest. ''   ["L5553"] = 4800,'' = pre @ ''["'' @ k @ ''"] = '' @ c # rest \<and>
      is_decimal c \<and> is_field_key k)\<close>
proof -
  let ?its = "[(''Scan'', [(''lastScan'', 1::int)]), (''Hist'', [(''H1'', 2)]), (''Rate'', [(''mr'', 3)])]"
  have m: "database_match (wrap_literal (join_nl five_entities)) = Some (join_nl five_entities)"
    by code_simp
  have p: "parse_lua_file (wrap_literal (join_nl five_entities)) = Parsed (Some ''Realm1'') ?its"
    by code_simp
  note t = entities_with_fields_appear_once [OF m]
  from t [THEN conjunct1] obtain its
    where x: "parse_lua_file (wrap_literal (join_nl five_entities)) =
        Parsed (realm_match (join_nl five_entities)) its \<and>
      distinct (map fst its) \<and>
      (\<forall>n. n \<in> fst ` set its \<longleftrightarrow>
              (\<exists>pre ol body c post.
                 split_nl (join_nl five_entities) = pre @ ol # body @ c # post \<and>
                 entity_open ol = Some n \<and>
                 (\<forall>l\<in>set body. entity_open l = None \<and> strip l \<noteq> ''},'') \<and>
                 (\<exists>l\<in>set body. has_field l) \<and>
                 (strip c = ''},'' \<or> entity_open c \<noteq> None)))"
    by (rule exE)
  from x [THEN conjunct1] p have its: "its = ?its" by simp
  note iff = x [THEN conjunct2, THEN conjunct2, unfolded its]
  have s: "''Scan'' \<in> fst ` set ?its" by simp
  have h: "''Hist'' \<in> fst ` set ?its" by simp
  have e: "''Empty'' \<notin> fst ` set ?its" by simp
  note a1 = iff [THEN spec, THEN iffD1, OF s]
  note a2 = iff [THEN spec, THEN iffD1, OF h]
  have a3: \<open>\<not> (\<exists>pre ol body c post.
      split_nl (join_nl five_entities) = pre @ ol # body @ c # post \<and>
      entity_open ol = Some ''Empty'' \<and>
      (\<forall>l\<in>set body. entity_open l = None \<and> strip l \<noteq> ''},'') \<and>
      (\<exists>l\<in>set body. has_field l) \<and>
      (strip c = ''},'' \<or> entity_open c \<noteq> None))\<close>
  proof
    assume "\<exists>pre ol body c post.
      split_nl (join_nl five_entities) = pre @ ol # body @ c # post \<and>
      entity_open ol = Some ''Empty'' \<and>
      (\<forall>l\<in>set body. entity_open l = None \<and> strip l \<noteq> ''},'') \<and>
      (\<exists>l\<in>set body. has_field l) \<and>
      (strip c = ''},'' \<or> entity_open c \<noteq> None)"
    from iff [THEN spec, THEN iffD2, OF this] e show False by (rule notE [rotated])
  qed
  have f1: \<open>has_field ''   ["lastScan"] = 1,''\<close> by code_simp
  have f2: \<open>\<not> has_field ''   ["L5553"] = 4800,''\<close> by code_simp
  note b1 = t [THEN conjunct2, THEN spec, THEN iffD1, OF f1]
  have b2: \<open>\<not> (\<exists>pre k c rest. ''   ["L5553"] = 4800,'' = pre @ ''["'' @ k @ ''"] = '' @ c # rest \<and>
      is_decimal c \<and> is_field_key k)\<close>
  proof
    assume \<open>\<exists>pre k c rest. ''   ["L5553"] = 4800,'' = pre @ ''["'' @ k @ ''"] = '' @ c # rest \<and>
      is_decimal c \<and> is_field_key k\<close>
    from t [THEN conjunct2, THEN spec, THEN iffD2, OF this] f2 show False by (rule notE [rotated])
  qed
  show ?thesis
    by (intro conjI) (rule m p a1 a2 a3 f1 b1 f2 b2)+
qed

text \<open>
  The claim as it was stated counts every line with a key of letters and digits as a
  field line. An entity whose only line has the key \<open>L5553\<close> is closed with no field
  collected and is absent from the output.
\<close>

theorem letter_only_entity_absent_counterexample:
  \<open>entity_open ''  ["Widget"] = {'' = Some ''Widget'' \<and>
   \<not> has_field ''   ["L5553"] = 4800,'' \<and>
   parse_lua_file (wrap_literal (join_nl letter_only)) = Parsed (Some ''Realm1'') []\<close>
  by code_simp

text \<open>
  Claim C3, amended. Let the lines of the literal open the entity \<open>n\<close> twice; let the
  second occurrence (\<open>o2\<close>, its lines \<open>body2\<close>, its close \<open>c2\<close>) hold a field line and be
  closed, by the terminator or by the next opening line, and let no later line open \<open>n\<close>
  again. Then the output has exactly one record for \<open>n\<close>, and its fields are those
  collected from \<open>body2\<close> alone, starting from the empty dictionary. When \<open>body2\<close> is a
  list of well-formed fields, each written on a line of its own, these are the fields
  written and no others: each key with the integer value of its digits. A field line is,
  by its text, a line that holds somewhere a bracket-quoted key \<open>lastScan\<close>, \<open>mr\<close> or H
  with digits, then \<open> = \<close> and a digit. Nothing is asked of the first occurrence:
  whatever it collected is overwritten.
\<close>

theorem reopened_entity_second_wins:
  assumes "database_match content = Some lua_data"
    and "split_nl lua_data = pre @ o1 # body1 @ mid @ o2 # body2 @ c2 # post"
    and "entity_open o1 = Some n"
    and "entity_open o2 = Some n"
    and "\<forall>l\<in>set body2. entity_open l = None \<and> strip l \<noteq> ''},''"
    and "\<exists>l\<in>set body2. has_field l"
    and "strip c2 = ''},'' \<or> entity_open c2 \<noteq> None"
    and "\<forall>l\<in>set (c2 # post). entity_open l \<noteq> Some n"
  shows \<open>(\<exists>its. parse_lua_file content = Parsed (realm_match lua_data) its \<and>
            filter (\<lambda>e. fst e = n) its = [(n, collect [] body2)]) \<and>
         (\<forall>fs. list_all valid_field fs \<and> body2 = map (\<lambda>(ws, k, v). field_line ws k v) fs
            \<longrightarrow> collect [] body2 = written_fields fs) \<and>
         (\<forall>line. has_field line \<longleftrightarrow>
            (\<exists>pre k c rest. line = pre @ ''["'' @ k @ ''"] = '' @ c # rest \<and> is_decimal c \<and>
               is_field_key k))\<close>
proof (intro conjI allI impI)
  have ls: "split_nl lua_data = (pre @ o1 # body1 @ mid) @ o2 # body2 @ c2 # post"
    using assms(2) by simp
  have "filter (\<lambda>e. fst e = n) (items (scan_lines (split_nl lua_data)))
          = [(n, collect [] body2)]"
    by (rule last_span_record [OF ls assms(4-8)])
  then show "\<exists>its. parse_lua_file content = Parsed (realm_match lua_data) its \<and>
            filter (\<lambda>e. fst e = n) its = [(n, collect [] body2)]"
    using parse_lua_file_Parsed [OF assms(1)] by simp
  show "collect [] body2 = written_fields fs"
    if "list_all valid_field fs \<and> body2 = map (\<lambda>(ws, k, v). field_line ws k v) fs" for fs
    using that collect_written [of fs "[]"] by (simp add: written_fields_def)
  show \<open>has_field line \<longleftrightarrow>
            (\<exists>pre k c rest. line = pre @ ''["'' @ k @ ''"] = '' @ c # rest \<and> is_decimal c \<and>
               is_field_key k)\<close> for line
    by (rule has_field_iff)
qed

theorem reopened_entity_second_wins_witness:
  \<open>database_match (wrap_literal (join_nl reopened_full)) = Some (join_nl reopened_full) \<and>
   split_nl (join_nl reopened_full) =
     [''{'', '' ["Realm1"] = {''] @ ''  ["Widget"] = {''
       # [''   ["lastScan"] = 1,'', ''   ["mr"] = 1,'', ''   ["H1"] = 2,'', ''   ["H2"] = 9,'']
       @ [''  },''] @ ''  ["Widget"] = {''
       # map (\<lambda>(ws, k, v). field_line ws k v)
           [(''   '', ''lastScan'', ''7''), (''   '', ''mr'', ''3''), (''   '', ''H1'', ''4'')]
       @ ''  },'' # ['' },'', ''}''] \<and>
   written_fields [(''   '', ''lastScan'', ''7''), (''   '', ''mr'', ''3''), (''   '', ''H1'', ''4'')]
     = [(''lastScan'', 7), (''mr'', 3), (''H1'', 4)] \<and>
   parse_lua_file (wrap_literal (join_nl reopened_full)) =
     Parsed (Some ''Realm1'') [(''Widget'', [(''lastScan'', 7), (''mr'', 3), (''H1'', 4)])] \<and>
   (\<exists>its. parse_lua_file (wrap_literal (join_nl reopened_full)) =
        Parsed (realm_match (join_nl reopened_full)) its \<and>
      filter (\<lambda>e. fst e = ''Widget'') its =
        [(''Widget'', written_fields
           [(''   '', ''lastScan'', ''7''), (''   '', ''mr'', ''3''), (''   '', ''H1'', ''4'')])])\<close>
proof -
  let ?fs = "[(''   '', ''lastScan'', ''7''), (''   '', ''mr'', ''3''), (''   '', ''H1'', ''4'')]"
  let ?body = "map (\<lambda>(ws, k, v). field_line ws k v) ?fs"
  have m: "database_match (wrap_literal (join_nl reopened_full)) = Some (join_nl reopened_full)"
    by code_simp
  have s: \<open>split_nl (join_nl reopened_full) =
     [''{'', '' ["Realm1"] = {''] @ ''  ["Widget"] = {''
       # [''   ["lastScan"] = 1,'', ''   ["mr"] = 1,'', ''   ["H1"] = 2,'', ''   ["H2"] = 9,'']
       @ [''  },''] @ ''  ["Widget"] = {''
       # ?body
       @ ''  },'' # ['' },'', ''}'']\<close>
    by code_simp
  have o: \<open>entity_open ''  ["Widget"] = {'' = Some ''Widget''\<close>
    by code_simp
  have b: "\<forall>l\<in>set ?body. entity_open l = None \<and> strip l \<noteq> ''},''"
    by code_simp
  have f: "\<exists>l\<in>set ?body. has_field l"
    by code_simp
  have vf: "list_all valid_field ?fs \<and> ?body = map (\<lambda>(ws, k, v). field_line ws k v) ?fs"
    by code_simp
  have c: \<open>strip ''  },'' = ''},'' \<or> entity_open ''  },'' \<noteq> None\<close>
    by code_simp
  have r: \<open>\<forall>l\<in>set (''  },'' # ['' },'', ''}'']). entity_open l \<noteq> Some ''Widget''\<close>
    by code_simp
  have w: "written_fields ?fs = [(''lastScan'', 7), (''mr'', 3), (''H1'', 4)]"
    by code_simp
  have p: "parse_lua_file (wrap_literal (join_nl reopened_full)) =
     Parsed (Some ''Realm1'') [(''Widget'', [(''lastScan'', 7), (''mr'', 3), (''H1'', 4)])]"
    by code_simp
  note t = reopened_entity_second_wins [OF m s o o b f c r]
  note pin = t [THEN conjunct2, THEN conjunct1, THEN spec, THEN mp, OF vf]
  note rec = t [THEN conjunct1, unfolded pin]
  show ?thesis
    by (intro conjI) (rule m s w p rec)+
qed

text \<open>
  The claim as it was stated does not ask that the second occurrence is closed. When its
  block ends with a closing brace that lacks the comma, the second occurrence is never
  committed and the record is the one of the first occurrence.
\<close>

theorem reopened_unclosed_counterexample:
  \<open>split_nl (join_nl reopened_unclosed) =
     [''{'', '' ["Realm1"] = {'', ''  ["Widget"] = {'', ''   ["mr"] = 1,'', ''  },'',
      ''  ["Widget"] = {'', ''   ["mr"] = 3,'', ''  }'', '' }'', ''}''] \<and>
   entity_open ''  ["Widget"] = {'' = Some ''Widget'' \<and>
   extract_fields ''   ["mr"] = 1,'' [] = [(''mr'', 1)] \<and>
   extract_fields ''   ["mr"] = 3,'' [] = [(''mr'', 3)] \<and>
   parse_lua_file (wrap_literal (join_nl reopened_unclosed)) =
     Parsed (Some ''Realm1'') [(''Widget'', [(''mr'', 1)])]\<close>
  by code_simp

text \<open>
  Claim C9. When the lines of the literal end inside an entity (after its opening line
  \<open>ol\<close> no line opens an entity and no line is the terminator), the mapping returned is
  the mapping as it stood when \<open>ol\<close> was read: the entity is still open after the last
  line, with the fields of \<open>body\<close> collected, and none of them is committed. If no
  earlier line opened the same name, the name is absent from the output. In the witness
  the entity has a field and its block ends with closing braces that lack the comma.
\<close>

theorem open_entity_at_end_not_committed:
  assumes "database_match content = Some lua_data"
    and "split_nl lua_data = pre @ ol # body"
    and "entity_open ol = Some n"
    and "\<forall>l\<in>set body. entity_open l = None \<and> strip l \<noteq> ''},''"
  shows "parse_lua_file content = Parsed (realm_match lua_data) (items (scan_lines (pre @ [ol]))) \<and>
         current_item_name (scan_lines (split_nl lua_data)) = Some n \<and>
         current_item_data (scan_lines (split_nl lua_data)) = collect [] body \<and>
         ((\<forall>l\<in>set pre. entity_open l \<noteq> Some n) \<longrightarrow>
            n \<notin> fst ` set (items (scan_lines (pre @ [ol]))))"
proof -
  have st: "scan_lines (split_nl lua_data) =
      \<lparr>items = items (scan_lines (pre @ [ol])), current_item_name = Some n,
       current_item_data = collect [] body\<rparr>"
    unfolding assms(2) by (rule scan_span [OF assms(3,4)])
  then have p: "parse_lua_file content =
      Parsed (realm_match lua_data) (items (scan_lines (pre @ [ol])))"
    using parse_lua_file_Parsed [OF assms(1)] by simp
  have "(\<forall>l\<in>set pre. entity_open l \<noteq> Some n) \<longrightarrow>
            n \<notin> fst ` set (items (scan_lines (pre @ [ol])))"
    using closed_span_opened_before [of pre ol n] scan_keys_closed_span [of n "pre @ [ol]"]
    by blast
  with p st show ?thesis by simp
qed

theorem open_entity_at_end_not_committed_witness:
  \<open>database_match (wrap_literal (join_nl unterminated)) = Some (join_nl unterminated) \<and>
   split_nl (join_nl unterminated) =
     [''{'', '' ["Realm1"] = {''] @ ''  ["Widget"] = {'' # [''   ["mr"] = 5,'', ''  }'', '' }'', ''}''] \<and>
   collect [] [''   ["mr"] = 5,'', ''  }'', '' }'', ''}''] = [(''mr'', 5)] \<and>
   parse_lua_file (wrap_literal (join_nl unterminated)) = Parsed (Some ''Realm1'') [] \<and>
   current_item_name (scan_lines (split_nl (join_nl unterminated))) = Some ''Widget'' \<and>
   current_item_data (scan_lines (split_nl (join_nl unterminated))) = [(''mr'', 5)] \<and>
   ''Widget'' \<notin> fst ` set (items (scan_lines ([''{'', '' ["Realm1"] = {''] @ [''  ["Widget"] = {''])))\<close>
proof -
  have m: "database_match (wrap_literal (join_nl unterminated)) = Some (join_nl unterminated)"
    by code_simp
  have s: \<open>split_nl (join_nl unterminated) =
     [''{'', '' ["Realm1"] = {''] @ ''  ["Widget"] = {'' # [''   ["mr"] = 5,'', ''  }'', '' }'', ''}'']\<close>
    by code_simp
  have o: \<open>entity_open ''  ["Widget"] = {'' = Some ''Widget''\<close>
    by code_simp
  have b: \<open>\<forall>l\<in>set [''   ["mr"] = 5,'', ''  }'', '' }'', ''}'']. entity_open l = None \<and> strip l \<noteq> ''},''\<close>
    by code_simp
  have e: \<open>\<forall>l\<in>set [''{'', '' ["Realm1"] = {'']. entity_open l \<noteq> Some ''Widget''\<close>
    by code_simp
  have k: \<open>collect [] [''   ["mr"] = 5,'', ''  }'', '' }'', ''}''] = [(''mr'', 5)]\<close>
    by code_simp
  have rm: "realm_match (join_nl unterminated) = Some ''Realm1''"
    by code_simp
  have p: "parse_lua_file (wrap_literal (join_nl unterminated)) = Parsed (Some ''Realm1'') []"
    by code_simp
  from open_entity_at_end_not_committed [OF m s o b] e k m s p show ?thesis
    by simp
qed

section \<open>The classification of a line\<close>

text \<open>
  Claim C8. A line is taken as the opening line of the entity \<open>nm\<close> exactly when it is
  whitespace, then an opening bracket, a double quote, the name (not empty, no double
  quote), a double quote, a closing bracket, \<open>= {\<close>, then anything, and it holds exactly
  one opening bracket. On such a line the loop commits the entity that was open (if it
  has fields), opens \<open>nm\<close> with an empty dictionary and goes to the next line: no field
  is taken from the line. A line with more than one opening bracket opens no entity.
\<close>

theorem entity_open_classification:
  \<open>(entity_open line = Some nm \<longleftrightarrow>
      (\<exists>ws post. line = ws @ ''["'' @ nm @ ''"] = {'' @ post \<and> (\<forall>c\<in>set ws. is_space c) \<and>
         nm \<noteq> [] \<and> CHR 0x22 \<notin> set nm) \<and>
      count_list line (CHR ''['') = 1) \<and>
   (entity_open line = Some nm \<longrightarrow>
      process_line st line =
        \<lparr>items = (if name_open (current_item_name st) \<and> current_item_data st \<noteq> []
                  then save_item (current_item_name st) (current_item_data st) (items st)
                  else items st),
         current_item_name = Some nm, current_item_data = []\<rparr>) \<and>
   (1 < count_list line (CHR ''['') \<longrightarrow> entity_open line = None)\<close>
proof (intro conjI)
  show \<open>entity_open line = Some nm \<longleftrightarrow>
      (\<exists>ws post. line = ws @ ''["'' @ nm @ ''"] = {'' @ post \<and> (\<forall>c\<in>set ws. is_space c) \<and>
         nm \<noteq> [] \<and> CHR 0x22 \<notin> set nm) \<and>
      count_list line (CHR ''['') = 1\<close>
    unfolding entity_open_Some item_name_match_Some by (rule refl)
  show "entity_open line = Some nm \<longrightarrow>
      process_line st line =
        \<lparr>items = (if name_open (current_item_name st) \<and> current_item_data st \<noteq> []
                  then save_item (current_item_name st) (current_item_data st) (items st)
                  else items st),
         current_item_name = Some nm, current_item_data = []\<rparr>"
    by (simp add: process_line_open)
  show "1 < count_list line (CHR ''['') \<longrightarrow> entity_open line = None"
    by (cases "entity_open line") (auto simp: entity_open_Some)
qed

theorem entity_open_classification_witness:
  \<open>entity_open ''  ["Widget"] = {'' = Some ''Widget'' \<and>
   (\<exists>ws post. ''  ["Widget"] = {'' = ws @ ''["'' @ ''Widget'' @ ''"] = {'' @ post \<and>
      (\<forall>c\<in>set ws. is_space c) \<and> ''Widget'' \<noteq> [] \<and> CHR 0x22 \<notin> set ''Widget'') \<and>
   count_list ''  ["Widget"] = {'' (CHR ''['') = 1 \<and>
   process_line \<lparr>items = [], current_item_name = Some ''Old'', current_item_data = [(''mr'', 1)]\<rparr>
       ''  ["Widget"] = {'' =
     \<lparr>items = [(''Old'', [(''mr'', 1)])], current_item_name = Some ''Widget'',
      current_item_data = []\<rparr> \<and>
   1 < count_list ''  ["Widget"] = { ["mr"] = 5 },'' (CHR ''['') \<and>
   entity_open ''  ["Widget"] = { ["mr"] = 5 },'' = None\<close>
proof -
  let ?st = "\<lparr>items = [], current_item_name = Some ''Old'', current_item_data = [(''mr'', 1::int)]\<rparr>"
  have o: \<open>entity_open ''  ["Widget"] = {'' = Some ''Widget''\<close>
    by code_simp
  have c: \<open>1 < count_list ''  ["Widget"] = { ["mr"] = 5 },'' (CHR ''['')\<close>
    by code_simp
  have s: "(if name_open (current_item_name ?st) \<and> current_item_data ?st \<noteq> []
            then save_item (current_item_name ?st) (current_item_data ?st) (items ?st)
            else items ?st) = [(''Old'', [(''mr'', 1)])]"
    by (simp add: name_open_def save_item_def)
  note t1 = entity_open_classification [of \<open>''  ["Widget"] = {''\<close> "''Widget''" ?st]
  note t2 = entity_open_classification [of \<open>''  ["Widget"] = { ["mr"] = 5 },''\<close> "''Widget''" ?st]
  from t1 o have a: \<open>(\<exists>ws post. ''  ["Widget"] = {'' = ws @ ''["'' @ ''Widget'' @ ''"] = {'' @ post \<and>
      (\<forall>c\<in>set ws. is_space c) \<and> ''Widget'' \<noteq> [] \<and> CHR 0x22 \<notin> set ''Widget'') \<and>
      count_list ''  ["Widget"] = {'' (CHR ''['') = 1\<close>
    by blast
  from t1 o s have b: \<open>process_line ?st ''  ["Widget"] = {'' =
     \<lparr>items = [(''Old'', [(''mr'', 1)])], current_item_name = Some ''Widget'',
      current_item_data = []\<rparr>\<close>
    by simp
  from t2 c have d: \<open>entity_open ''  ["Widget"] = { ["mr"] = 5 },'' = None\<close>
    by blast
  from o a b c d show ?thesis by blast
qed

section \<open>The fixed fields of an exported record\<close>

text \<open>
  Claim C6. The entry exported for an entity has \<open>lastScan = 0\<close> when its dictionary has
  no key \<open>lastScan\<close>, and \<open>mr = 0\<close> when it has no key \<open>mr\<close>. An entity whose only field
  is \<open>lastScan\<close> is exported with that value, \<open>mr = 0\<close> and an empty history; for the
  literal with the one entity Widget holding only \<open>lastScan = 1\<close> and its terminator, the
  export has the one item Widget with \<open>lastScan = 1\<close>, \<open>mr = 0\<close> and an empty history.
\<close>

theorem missing_fixed_fields_default_to_zero:
  "(map_of d ''lastScan'' = None \<longrightarrow> lastScan (make_entry (n, d)) = 0) \<and>
   (map_of d ''mr'' = None \<longrightarrow> mr (make_entry (n, d)) = 0) \<and>
   make_entry (n, [(''lastScan'', v)]) = \<lparr>name = n, lastScan = v, mr = 0, history = []\<rparr> \<and>
   main_output (parse_lua_file (wrap_literal (join_nl only_last_scan))) =
     Inr \<lparr>realm_out = Some ''Realm1'',
          items_out = [\<lparr>name = ''Widget'', lastScan = 1, mr = 0, history = []\<rparr>]\<rparr>"
proof (intro conjI)
  show "map_of d ''lastScan'' = None \<longrightarrow> lastScan (make_entry (n, d)) = 0"
    by (simp add: make_entry_def dict_get_def)
  show "map_of d ''mr'' = None \<longrightarrow> mr (make_entry (n, d)) = 0"
    by (simp add: make_entry_def dict_get_def)
  have "\<not> is_history_key ''lastScan''" by code_simp
  then show "make_entry (n, [(''lastScan'', v)]) = \<lparr>name = n, lastScan = v, mr = 0, history = []\<rparr>"
    by (simp add: make_entry_def dict_get_def)
  show "main_output (parse_lua_file (wrap_literal (join_nl only_last_scan))) =
     Inr \<lparr>realm_out = Some ''Realm1'',
          items_out = [\<lparr>name = ''Widget'', lastScan = 1, mr = 0, history = []\<rparr>]\<rparr>"
    by code_simp
qed

theorem missing_fixed_fields_default_to_zero_witness:
  "map_of [(''lastScan'', 7::int)] ''mr'' = None \<and>
   mr (make_entry (''Widget'', [(''lastScan'', 7)])) = 0 \<and>
   lastScan (make_entry (''Widget'', [(''lastScan'', 7)])) = 7 \<and>
   map_of [(''H1'', 9::int)] ''lastScan'' = None \<and>
   lastScan (make_entry (''Widget'', [(''H1'', 9)])) = 0"
proof -
  have a: "map_of [(''lastScan'', 7::int)] ''mr'' = None" by simp
  have b: "map_of [(''H1'', 9::int)] ''lastScan'' = None" by simp
  note t1 = missing_fixed_fields_default_to_zero [of "[(''lastScan'', 7)]" "''Widget''" 7]
  note t2 = missing_fixed_fields_default_to_zero [of "[(''H1'', 9)]" "''Widget''" 7]
  from t1 a have c: "mr (make_entry (''Widget'', [(''lastScan'', 7)])) = 0" by blast
  from t1 have d: "lastScan (make_entry (''Widget'', [(''lastScan'', 7)])) = 7" by simp
  from t2 b have e: "lastScan (make_entry (''Widget'', [(''H1'', 9)])) = 0" by blast
  from a b c d e show ?thesis by blast
qed

section \<open>The database is not found\<close>

text \<open>
  Claim C4, amended. When the start marker does not stand in the content, or the end
  marker does not, or no occurrence of the end marker stands after an occurrence of the
  start marker, \<^const>\<open>parse_lua_file\<close> returns the empty dictionary: no entity and no
  realm. It returns the empty dictionary exactly when the literal is not delimited, that
  is, when the content has no start marker followed, somewhere later, by a closing brace
  that stands immediately before the line feed of an end-marker line.
\<close>

theorem empty_result_exactly_when_not_delimited:
  "(\<not> occurs start_marker content \<or> \<not> occurs end_marker content \<or>
      \<not> markers_in_order content \<longrightarrow> parse_lua_file content = EmptyDict) \<and>
   (parse_lua_file content = EmptyDict \<longleftrightarrow> \<not> literal_delimited content) \<and>
   (literal_delimited content \<longleftrightarrow>
      (\<exists>pre mid post. content = pre @ start_marker @ mid @ CHR ''}'' # end_marker @ post))"
proof (intro conjI)
  have e: "parse_lua_file content = EmptyDict \<longleftrightarrow> database_match content = None"
    by (cases "database_match content") (simp_all add: parse_lua_file_def)
  show "\<not> occurs start_marker content \<or> \<not> occurs end_marker content \<or>
      \<not> markers_in_order content \<longrightarrow> parse_lua_file content = EmptyDict"
  proof
    assume "\<not> occurs start_marker content \<or> \<not> occurs end_marker content \<or>
      \<not> markers_in_order content"
    then have "\<not> markers_in_order content"
      using markers_in_order_occur by blast
    then have "database_match content = None"
      using database_match_markers by (cases "database_match content") auto
    with e show "parse_lua_file content = EmptyDict" by simp
  qed
  show "parse_lua_file content = EmptyDict \<longleftrightarrow> \<not> literal_delimited content"
    using e database_match_delimited [of content] by blast
  show "literal_delimited content \<longleftrightarrow>
      (\<exists>pre mid post. content = pre @ start_marker @ mid @ CHR ''}'' # end_marker @ post)"
    by (rule literal_delimited_iff)
qed

theorem empty_result_exactly_when_not_delimited_witness:
  "\<not> occurs end_marker (join_nl no_end_marker) \<and>
   parse_lua_file (join_nl no_end_marker) = EmptyDict \<and>
   \<not> literal_delimited (join_nl no_end_marker) \<and>
   \<not> markers_in_order (join_nl markers_swapped) \<and>
   parse_lua_file (join_nl markers_swapped) = EmptyDict \<and>
   literal_delimited (wrap_literal (join_nl two_entities)) \<and>
   parse_lua_file (wrap_literal (join_nl two_entities)) \<noteq> EmptyDict \<and>
   (\<exists>pre mid post. wrap_literal (join_nl two_entities)
      = pre @ start_marker @ mid @ CHR ''}'' # end_marker @ post)"
proof -
  have a: "\<not> occurs end_marker (join_nl no_end_marker)" by code_simp
  have b: "\<not> markers_in_order (join_nl markers_swapped)" by code_simp
  have c: "literal_delimited (wrap_literal (join_nl two_entities))" by code_simp
  note t1 = empty_result_exactly_when_not_delimited [of "join_nl no_end_marker"]
  note t2 = empty_result_exactly_when_not_delimited [of "join_nl markers_swapped"]
  note t3 = empty_result_exactly_when_not_delimited [of "wrap_literal (join_nl two_entities)"]
  from a have a': "\<not> occurs start_marker (join_nl no_end_marker) \<or>
      \<not> occurs end_marker (join_nl no_end_marker) \<or> \<not> markers_in_order (join_nl no_end_marker)"
    by simp
  from b have b': "\<not> occurs start_marker (join_nl markers_swapped) \<or>
      \<not> occurs end_marker (join_nl markers_swapped) \<or> \<not> markers_in_order (join_nl markers_swapped)"
    by simp
  note p1 = t1 [THEN conjunct1, THEN mp, OF a']
  note p2 = t2 [THEN conjunct1, THEN mp, OF b']
  note d1 = t1 [THEN conjunct2, THEN conjunct1, THEN iffD1, OF p1]
  have p3: "parse_lua_file (wrap_literal (join_nl two_entities)) \<noteq> EmptyDict"
    using t3 [THEN conjunct2, THEN conjunct1] c by simp
  note x3 = t3 [THEN conjunct2, THEN conjunct2, THEN iffD1, OF c]
  show ?thesis
    by (intro conjI) (rule a p1 d1 b p2 c p3 x3)+
qed

text \<open>
  The claim as it was stated makes the missing or misplaced markers the only case of the
  empty result. With both markers present and in order, but a space between the closing
  brace and the line feed of the end-marker line, the pattern of line 12 does not match
  and the empty dictionary is returned as well.
\<close>

theorem markers_present_empty_counterexample:
  "occurs start_marker (join_nl brace_then_space) \<and>
   occurs end_marker (join_nl brace_then_space) \<and>
   markers_in_order (join_nl brace_then_space) \<and>
   parse_lua_file (join_nl brace_then_space) = EmptyDict"
  by code_simp

section \<open>The realm\<close>

text \<open>
  Claim C7, amended. The realm that \<^const>\<open>parse_lua_file\<close> returns is the name of the
  first occurrence in the literal, at any nesting level, of an opening bracket, a double
  quote, a name (not empty, no double quote), a double quote, a closing bracket and
  \<open>= {\<close>: the literal splits at the occurrence, and no occurrence starts earlier. When
  the literal has no occurrence the realm is \<open>None\<close>, and the items are returned all
  the same.
\<close>

theorem realm_is_first_quoted_key:
  assumes "database_match content = Some lua_data"
  shows \<open>(\<exists>its. parse_lua_file content = Parsed (realm_match lua_data) its) \<and>
     (\<forall>nm. realm_match lua_data = Some nm \<longleftrightarrow>
        (\<exists>pre post. lua_data = pre @ ''["'' @ nm @ ''"] = {'' @ post \<and> nm \<noteq> [] \<and>
           CHR 0x22 \<notin> set nm \<and>
           (\<forall>pre' nm' post'. lua_data = pre' @ ''["'' @ nm' @ ''"] = {'' @ post' \<and> nm' \<noteq> [] \<and>
               CHR 0x22 \<notin> set nm' \<longrightarrow> length pre \<le> length pre'))) \<and>
     (realm_match lua_data = None \<longleftrightarrow>
        \<not> (\<exists>pre nm post. lua_data = pre @ ''["'' @ nm @ ''"] = {'' @ post \<and> nm \<noteq> [] \<and>
              CHR 0x22 \<notin> set nm))\<close>
proof (intro conjI allI)
  show "\<exists>its. parse_lua_file content = Parsed (realm_match lua_data) its"
    using parse_lua_file_Parsed [OF assms] by blast
  show \<open>realm_match lua_data = Some nm \<longleftrightarrow>
        (\<exists>pre post. lua_data = pre @ ''["'' @ nm @ ''"] = {'' @ post \<and> nm \<noteq> [] \<and>
           CHR 0x22 \<notin> set nm \<and>
           (\<forall>pre' nm' post'. lua_data = pre' @ ''["'' @ nm' @ ''"] = {'' @ post' \<and> nm' \<noteq> [] \<and>
               CHR 0x22 \<notin> set nm' \<longrightarrow> length pre \<le> length pre'))\<close> for nm
    by (rule realm_match_Some)
  show \<open>realm_match lua_data = None \<longleftrightarrow>
        \<not> (\<exists>pre nm post. lua_data = pre @ ''["'' @ nm @ ''"] = {'' @ post \<and> nm \<noteq> [] \<and>
              CHR 0x22 \<notin> set nm)\<close>
    by (rule realm_match_None)
qed

theorem realm_is_first_quoted_key_witness:
  \<open>database_match (wrap_literal (join_nl nested_first)) = Some (join_nl nested_first) \<and>
   parse_lua_file (wrap_literal (join_nl nested_first)) = Parsed (Some ''Inner'') [] \<and>
   (\<exists>pre post. join_nl nested_first = pre @ ''["'' @ ''Inner'' @ ''"] = {'' @ post \<and>
      ''Inner'' \<noteq> [] \<and> CHR 0x22 \<notin> set ''Inner'' \<and>
      (\<forall>pre' nm' post'. join_nl nested_first = pre' @ ''["'' @ nm' @ ''"] = {'' @ post' \<and>
          nm' \<noteq> [] \<and> CHR 0x22 \<notin> set nm' \<longrightarrow> length pre \<le> length pre')) \<and>
   database_match (wrap_literal (join_nl no_key)) = Some (join_nl no_key) \<and>
   parse_lua_file (wrap_literal (join_nl no_key)) = Parsed None [] \<and>
   \<not> (\<exists>pre nm post. join_nl no_key = pre @ ''["'' @ nm @ ''"] = {'' @ post \<and> nm \<noteq> [] \<and>
         CHR 0x22 \<notin> set nm)\<close>
proof -
  have m1: "database_match (wrap_literal (join_nl nested_first)) = Some (join_nl nested_first)"
    by code_simp
  have m2: "database_match (wrap_literal (join_nl no_key)) = Some (join_nl no_key)"
    by code_simp
  have p1: "parse_lua_file (wrap_literal (join_nl nested_first)) = Parsed (Some ''Inner'') []"
    by code_simp
  have p2: "parse_lua_file (wrap_literal (join_nl no_key)) = Parsed None []"
    by code_simp
  note t1 = realm_is_first_quoted_key [OF m1]
  note t2 = realm_is_first_quoted_key [OF m2]
  from t1 have "\<exists>its. parse_lua_file (wrap_literal (join_nl nested_first)) =
      Parsed (realm_match (join_nl nested_first)) its"
    by (rule conjunct1)
  with p1 have r1: "realm_match (join_nl nested_first) = Some ''Inner''" by simp
  from t2 have "\<exists>its. parse_lua_file (wrap_literal (join_nl no_key)) =
      Parsed (realm_match (join_nl no_key)) its"
    by (rule conjunct1)
  with p2 have r2: "realm_match (join_nl no_key) = None" by simp
  note a = t1 [THEN conjunct2, THEN conjunct1, THEN spec, THEN iffD1, OF r1]
  note b = t2 [THEN conjunct2, THEN conjunct2, THEN iffD1, OF r2]
  show ?thesis
    by (intro conjI) (rule m1 p1 a m2 p2 b)+
qed

text \<open>
  The claim as it was stated asks for the first such key at the outermost nesting level.
  The code does not track the nesting: in the literal below the first key stands two
  braces deep and is returned, while the first key at the outermost level is another.
\<close>

theorem realm_outermost_level_counterexample:
  "parse_lua_file (wrap_literal (join_nl nested_first)) = Parsed (Some ''Inner'') [] \<and>
   spec_scope_name (join_nl nested_first) = Some ''Realm1''"
  by code_simp

section \<open>History fields\<close>

text \<open>
  Claim C1, amended. Let the lines of the literal hold an occurrence of the entity \<open>n\<close>
  that is closed and is the last one of its name, and in it a line that holds, after a
  part \<open>ws\<close> without an opening bracket, a bracket-quoted key that is the letter H
  followed by one or more digits, then \<open> = \<close> and a run of digits \<open>vs\<close> that ends where the
  line ends or a character that is no digit follows; let no later line of the occurrence
  hold the same bracket-quoted key before \<open> = \<close>. Then the output has exactly one record
  for \<open>n\<close>, its dictionary holds the whole key with the value \<open>int(vs)\<close>, the export of
  \<^verbatim>\<open>main\<close> has exactly one entry named \<open>n\<close>, made from that dictionary, and the history
  of that entry holds the same key and value. The history holds exactly the keys of the
  dictionary that start with H and go on with digits only.
\<close>

theorem history_field_exported:
  assumes \<open>database_match content = Some lua_data\<close>
    and \<open>split_nl lua_data = pre @ ol # body1 @ line # body2 @ c # post\<close>
    and \<open>entity_open ol = Some n\<close>
    and \<open>\<forall>l\<in>set (body1 @ body2). entity_open l = None \<and> strip l \<noteq> ''},''\<close>
    and \<open>line = ws @ ''["'' @ key @ ''"] = '' @ vs @ rest\<close>
    and \<open>CHR ''['' \<notin> set ws\<close>
    and \<open>key = CHR ''H'' # ds\<close> and \<open>ds \<noteq> []\<close> and \<open>list_all is_decimal ds\<close>
    and \<open>vs \<noteq> []\<close> and \<open>list_all is_decimal vs\<close>
    and \<open>rest = [] \<or> \<not> is_decimal (hd rest)\<close>
    and \<open>\<forall>l\<in>set body2. \<not> occurs (''["'' @ key @ ''"] = '') l\<close>
    and \<open>strip c = ''},'' \<or> entity_open c \<noteq> None\<close>
    and \<open>\<forall>l\<in>set (c # post). entity_open l \<noteq> Some n\<close>
  shows \<open>\<exists>its d.
           parse_lua_file content = Parsed (realm_match lua_data) its \<and>
           filter (\<lambda>e. fst e = n) its = [(n, d)] \<and>
           map_of d key = Some (py_int vs) \<and>
           main_output (parse_lua_file content) =
             Inr \<lparr>realm_out = realm_match lua_data, items_out = map make_entry its\<rparr> \<and>
           filter (\<lambda>e. name e = n) (map make_entry its) = [make_entry (n, d)] \<and>
           map_of (history (make_entry (n, d))) key = Some (py_int vs) \<and>
           (\<forall>k. map_of (history (make_entry (n, d))) k
                  = (if is_history_key k then map_of d k else None))\<close>
proof -
  let ?its = "items (scan_lines (split_nl lua_data))"
  let ?body = "body1 @ line # body2"
  let ?d = "collect [] ?body"
  have quote: "CHR 0x22 \<notin> set key"
    unfolding assms(7) using decimal_no_quote [OF assms(9)] by simp
  have no: "entity_open line = None"
    unfolding assms(5) by (rule field_line_not_open [OF assms(6) quote assms(10,11)])
  have "CHR ''['' \<in> set line" unfolding assms(5) by simp
  then have nt: "strip line \<noteq> ''},''"
    using terminator_no_bracket [of line] by blast
  have plain: "\<forall>l\<in>set ?body. entity_open l = None \<and> strip l \<noteq> ''},''"
    using assms(4) no nt by auto
  have hm: "hist_match line = Some (key, vs)"
    unfolding assms(5,7) by (rule hist_match_field [OF assms(6,8,9,10,11,12)])
  have stored: "map_of (extract_fields line d0) key = Some (py_int vs)" for d0
    by (rule extract_fields_hist [OF hm])
  from stored [of "[]"] have "extract_fields line [] \<noteq> []" by auto
  then have hf: "\<exists>l\<in>set ?body. has_field l"
    by (auto simp: has_field_def)
  have ls: "split_nl lua_data = pre @ ol # ?body @ c # post"
    using assms(2) by simp
  have rec: "filter (\<lambda>e. fst e = n) ?its = [(n, ?d)]"
    by (rule last_span_record [OF ls assms(3) plain hf assms(14,15)])
  have k1: "key \<noteq> ''lastScan''" and k2: "key \<noteq> ''mr''"
    unfolding assms(7) by simp_all
  have "?d = collect (extract_fields line (collect [] body1)) body2"
    by (simp add: collect_def)
  then have v: "map_of ?d key = Some (py_int vs)"
    using collect_keeps [OF assms(13) k1 k2] stored by simp
  have dist: "distinct (map fst ?d)"
    using collect_distinct [of "[]" ?body] by simp
  have hk: "is_history_key key"
    unfolding assms(7) by (rule is_history_key_H [OF assms(8,9)])
  have look: "map_of (history (make_entry (n, ?d))) k
                = (if is_history_key k then map_of ?d k else None)" for k
    by (rule history_lookup [OF dist])
  from look [of key] hk v have hv: "map_of (history (make_entry (n, ?d))) key = Some (py_int vs)"
    by simp
  have p: "parse_lua_file content = Parsed (realm_match lua_data) ?its"
    by (rule parse_lua_file_Parsed [OF assms(1)])
  have mo: "main_output (parse_lua_file content) =
             Inr \<lparr>realm_out = realm_match lua_data, items_out = map make_entry ?its\<rparr>"
    unfolding p by (simp add: main_output_def)
  have fe: "filter (\<lambda>e. name e = n) (map make_entry ?its) = [make_entry (n, ?d)]"
    unfolding filter_entries rec by simp
  have "parse_lua_file content = Parsed (realm_match lua_data) ?its \<and>
           filter (\<lambda>e. fst e = n) ?its = [(n, ?d)] \<and>
           map_of ?d key = Some (py_int vs) \<and>
           main_output (parse_lua_file content) =
             Inr \<lparr>realm_out = realm_match lua_data, items_out = map make_entry ?its\<rparr> \<and>
           filter (\<lambda>e. name e = n) (map make_entry ?its) = [make_entry (n, ?d)] \<and>
           map_of (history (make_entry (n, ?d))) key = Some (py_int vs) \<and>
           (\<forall>k. map_of (history (make_entry (n, ?d))) k
                  = (if is_history_key k then map_of ?d k else None))"
    by (intro conjI allI) (rule p rec v mo fe hv look)+
  then show ?thesis by (intro exI)
qed

theorem history_field_exported_witness:
  \<open>database_match (wrap_literal (join_nl widget_lines)) = Some (join_nl widget_lines) \<and>
   split_nl (join_nl widget_lines) =
     [''{'', '' ["Realm1"] = {''] @ ''  ["Widget"] = {'' # [''   ["lastScan"] = 12345,'']
       @ ''   ["H5553"] = 4800,'' # [''   ["H5554"] = 5100,'', ''   ["mr"] = 5000,'']
       @ ''  },'' # ['' },'', ''}''] \<and>
   ''   ["H5553"] = 4800,'' = ''   '' @ ''["'' @ ''H5553'' @ ''"] = '' @ ''4800'' @ '','' \<and>
   py_int ''4800'' = 4800 \<and>
   main_output (parse_lua_file (wrap_literal (join_nl widget_lines))) =
     Inr \<lparr>realm_out = Some ''Realm1'',
          items_out = [\<lparr>name = ''Widget'', lastScan = 12345, mr = 5000,
                        history = [(''H5553'', 4800), (''H5554'', 5100)]\<rparr>]\<rparr> \<and>
   (\<exists>its d.
      parse_lua_file (wrap_literal (join_nl widget_lines)) =
        Parsed (realm_match (join_nl widget_lines)) its \<and>
      filter (\<lambda>e. fst e = ''Widget'') its = [(''Widget'', d)] \<and>
      map_of d ''H5553'' = Some (py_int ''4800'') \<and>
      main_output (parse_lua_file (wrap_literal (join_nl widget_lines))) =
        Inr \<lparr>realm_out = realm_match (join_nl widget_lines), items_out = map make_entry its\<rparr> \<and>
      filter (\<lambda>e. name e = ''Widget'') (map make_entry its) = [make_entry (''Widget'', d)] \<and>
      map_of (history (make_entry (''Widget'', d))) ''H5553'' = Some (py_int ''4800'') \<and>
      (\<forall>k. map_of (history (make_entry (''Widget'', d))) k
             = (if is_history_key k then map_of d k else None)))\<close>
proof -
  have a1: "database_match (wrap_literal (join_nl widget_lines)) = Some (join_nl widget_lines)"
    by code_simp
  have a2: \<open>split_nl (join_nl widget_lines) =
     [''{'', '' ["Realm1"] = {''] @ ''  ["Widget"] = {'' # [''   ["lastScan"] = 12345,'']
       @ ''   ["H5553"] = 4800,'' # [''   ["H5554"] = 5100,'', ''   ["mr"] = 5000,'']
       @ ''  },'' # ['' },'', ''}'']\<close>
    by code_simp
  have a3: \<open>entity_open ''  ["Widget"] = {'' = Some ''Widget''\<close>
    by code_simp
  have a4: \<open>\<forall>l\<in>set ([''   ["lastScan"] = 12345,''] @ [''   ["H5554"] = 5100,'', ''   ["mr"] = 5000,'']).
      entity_open l = None \<and> strip l \<noteq> ''},''\<close>
    by code_simp
  have a5: \<open>''   ["H5553"] = 4800,'' = ''   '' @ ''["'' @ ''H5553'' @ ''"] = '' @ ''4800'' @ '',''\<close>
    by simp
  have a6: "CHR ''['' \<notin> set ''   ''" by simp
  have a7: "''H5553'' = CHR ''H'' # ''5553''" by simp
  have a8: "''5553'' \<noteq> []" by simp
  have a9: "list_all is_decimal ''5553''" by code_simp
  have a10: "''4800'' \<noteq> []" by simp
  have a11: "list_all is_decimal ''4800''" by code_simp
  have a12: "'','' = [] \<or> \<not> is_decimal (hd '','')" by code_simp
  have a13: \<open>\<forall>l\<in>set [''   ["H5554"] = 5100,'', ''   ["mr"] = 5000,''].
      \<not> occurs (''["'' @ ''H5553'' @ ''"] = '') l\<close>
    by code_simp
  have a14: \<open>strip ''  },'' = ''},'' \<or> entity_open ''  },'' \<noteq> None\<close>
    by code_simp
  have a15: \<open>\<forall>l\<in>set (''  },'' # ['' },'', ''}'']). entity_open l \<noteq> Some ''Widget''\<close>
    by code_simp
  have pv: "py_int ''4800'' = 4800" by code_simp
  have mo: "main_output (parse_lua_file (wrap_literal (join_nl widget_lines))) =
     Inr \<lparr>realm_out = Some ''Realm1'',
          items_out = [\<lparr>name = ''Widget'', lastScan = 12345, mr = 5000,
                        history = [(''H5553'', 4800), (''H5554'', 5100)]\<rparr>]\<rparr>"
    by code_simp
  note t = history_field_exported [OF a1 a2 a3 a4 a5 a6 a7 a8 a9 a10 a11 a12 a13 a14 a15]
  show ?thesis
    by (intro conjI) (rule a1 a2 a5 pv mo t)+
qed

text \<open>
  The claim as it was stated takes any prefix of letters. The pattern of line 61 and the
  test of line 113 both ask for the letter H: a field \<open>L5553\<close> of an open entity is
  neither stored nor exported, and the export drops such a key from a dictionary that
  holds it.
\<close>

theorem letter_prefix_field_counterexample:
  \<open>extract_fields ''   ["L5553"] = 4800,'' [] = [] \<and>
   parse_lua_file (wrap_literal (join_nl letter_prefix)) =
     Parsed (Some ''Realm1'') [(''Widget'', [(''lastScan'', 12345)])] \<and>
   main_output (parse_lua_file (wrap_literal (join_nl letter_prefix))) =
     Inr \<lparr>realm_out = Some ''Realm1'',
          items_out = [\<lparr>name = ''Widget'', lastScan = 12345, mr = 0, history = []\<rparr>]\<rparr> \<and>
   history (make_entry (''Widget'', [(''lastScan'', 12345), (''L5553'', 4800)])) = []\<close>
  by code_simp

section \<open>The currency formatter\<close>

lemma gold_nonneg: "0 \<le> c \<Longrightarrow> 0 \<le> gold c"
  unfolding gold_def by simp

lemma silver_range: "0 \<le> silver c \<and> silver c < 100"
proof -
  have "0 \<le> c mod 10000" "c mod 10000 < 10000" by simp_all
  then show ?thesis unfolding silver_def by auto
qed

lemma copper_remainder_range: "0 \<le> copper_remainder c \<and> copper_remainder c < 100"
  unfolding copper_remainder_def by simp

lemma copper_sum: "c = 10000 * gold c + 100 * silver c + copper_remainder c"
proof -
  have a: "c = 10000 * (c div 10000) + c mod 10000" by simp
  have b: "c mod 10000 = 100 * ((c mod 10000) div 100) + (c mod 10000) mod 100" by simp
  have d: "(c mod 10000) mod 100 = c mod 100" by (simp add: mod_mod_cancel)
  from a b d show ?thesis
    unfolding gold_def silver_def copper_remainder_def by linarith
qed

text \<open>
  Claim C10. For a count \<open>c \<ge> 0\<close> of copper, the gold, silver and copper components
  that \<^const>\<open>convert_copper_to_gold\<close> computes satisfy
  \<open>c = 10000 * gold + 100 * silver + copper\<close>, with silver and copper in \<open>0..99\<close> and
  gold not negative; the string shows the three components when gold is not zero, silver
  and copper when gold is zero and silver is not, and copper alone otherwise.
\<close>

theorem copper_decomposition:
  "0 \<le> c \<Longrightarrow>
     c = 10000 * gold c + 100 * silver c + copper_remainder c \<and>
     0 \<le> gold c \<and> 0 \<le> silver c \<and> silver c < 100 \<and>
     0 \<le> copper_remainder c \<and> copper_remainder c < 100 \<and>
     convert_copper_to_gold c =
       (if gold c \<noteq> 0 then
          str_int (gold c) @ ''g '' @ str_int (silver c) @ ''s ''
            @ str_int (copper_remainder c) @ ''c''
        else if silver c \<noteq> 0 then
          str_int (silver c) @ ''s '' @ str_int (copper_remainder c) @ ''c''
        else str_int (copper_remainder c) @ ''c'')"
proof -
  assume "0 \<le> c"
  then have g: "0 \<le> gold c" by (rule gold_nonneg)
  have s: "0 \<le> silver c \<and> silver c < 100" by (rule silver_range)
  from g have g': "(0 < gold c) = (gold c \<noteq> 0)" by linarith
  from s have s': "(0 < silver c) = (silver c \<noteq> 0)" by linarith
  have shown: "convert_copper_to_gold c =
       (if gold c \<noteq> 0 then
          str_int (gold c) @ ''g '' @ str_int (silver c) @ ''s ''
            @ str_int (copper_remainder c) @ ''c''
        else if silver c \<noteq> 0 then
          str_int (silver c) @ ''s '' @ str_int (copper_remainder c) @ ''c''
        else str_int (copper_remainder c) @ ''c'')"
    unfolding convert_copper_to_gold_def g' s' by (rule refl)
  from copper_sum [of c] g s copper_remainder_range [of c] shown show ?thesis
    by (intro conjI) blast+
qed

theorem copper_decomposition_witness:
  "(0::int) \<le> 1234567 \<and>
   (1234567::int) = 10000 * gold 1234567 + 100 * silver 1234567 + copper_remainder 1234567 \<and>
   gold 1234567 = 123 \<and> silver 1234567 = 45 \<and> copper_remainder 1234567 = 67 \<and>
   convert_copper_to_gold 1234567 = ''123g 45s 67c''"
proof -
  have h: "(0::int) \<le> 1234567" by simp
  have g: "gold 1234567 = 123" by (simp add: gold_def)
  have s: "silver 1234567 = 45" by (simp add: silver_def)
  have r: "copper_remainder 1234567 = 67" by (simp add: copper_remainder_def)
  have t: "convert_copper_to_gold 1234567 = ''123g 45s 67c''"
    by code_simp
  from copper_decomposition [OF h] have
    "(1234567::int) = 10000 * gold 1234567 + 100 * silver 1234567 + copper_remainder 1234567"
    by (rule conjunct1)
  with h g s r t show ?thesis by blast
qed

section \<open>The concrete scenario\<close>

text \<open>
  Claim C5. For the minimal literal of the specification (realm Realm1, one entity Widget
  with lastScan 12345, mr 5000, H5553 4800 and H5554 5100, then the end marker), the
  value that \<^verbatim>\<open>main\<close> exports has realm Realm1 and the single item Widget with these
  fixed fields and the history H5553 to 4800, H5554 to 5100.
\<close>

theorem minimal_literal_output:
  "main_output (parse_lua_file minimal_literal) =
     Inr \<lparr>realm_out = Some ''Realm1'',
          items_out = [\<lparr>name = ''Widget'', lastScan = 12345, mr = 5000,
                        history = [(''H5553'', 4800), (''H5554'', 5100)]\<rparr>]\<rparr>"
  by code_simp

end
